theory Spec2Isabelle
  imports Main
begin

section \<open>JavaScript values, promises and the observable trace\<close>

text \<open>
  The GitHub backend (\<^verbatim>\<open>implementation.tsx\<close>) branches on the truthiness of values it
  gets from its collaborators (\<^verbatim>\<open>err && err.status === 404\<close>, \<^verbatim>\<open>!loadedEntry.error\<close>,
  \<^verbatim>\<open>repo.fork === true && repo.parent && ...\<close>) and reads properties of parsed JSON.
  Such values are modelled by \<open>jsval\<close>. Numbers are integers here (no floating point,
  no NaN); objects are association lists from property names to values.
\<close>

datatype jsval =
    JUndefined
  | JNull
  | JBool bool
  | JNum int
  | JStr string
  | JObj "(string \<times> jsval) list"

text \<open>JavaScript's ToBoolean.\<close>

fun truthy :: "jsval \<Rightarrow> bool" where
  "truthy JUndefined = False"
| "truthy JNull = False"
| "truthy (JBool b) = b"
| "truthy (JNum n) = (n \<noteq> 0)"
| "truthy (JStr s) = (s \<noteq> [])"
| "truthy (JObj kvs) = True"

text \<open>
  A promise is modelled by how it settles. A rejection reason is any JavaScript value
  (TypeScript does not type it); a \<^verbatim>\<open>throw\<close> inside an \<^verbatim>\<open>async\<close> function is a rejection.
\<close>

datatype 'a outcome = Resolved 'a | Rejected jsval

text \<open>The error objects the code itself creates.\<close>

definition js_Error :: "string \<Rightarrow> jsval" where
  "js_Error msg = JObj [(''name'', JStr ''Error''), (''message'', JStr msg)]"

definition js_TypeError :: jsval where
  "js_TypeError = JObj [(''name'', JStr ''TypeError'')]"

text \<open>
  Property access \<^verbatim>\<open>v.k\<close>: a TypeError on \<^verbatim>\<open>undefined\<close> and \<^verbatim>\<open>null\<close>, the property of an
  object (\<^verbatim>\<open>undefined\<close> when it has none of that name), \<^verbatim>\<open>undefined\<close> on the other
  primitives (none of the properties the code reads, \<^verbatim>\<open>status\<close>, \<^verbatim>\<open>message\<close>, \<^verbatim>\<open>login\<close>,
  \<^verbatim>\<open>permission\<close>, \<^verbatim>\<open>fork\<close>, \<^verbatim>\<open>parent\<close>, \<^verbatim>\<open>full_name\<close>, exists on a boolean, number or
  string).
\<close>

fun get_prop :: "jsval \<Rightarrow> string \<Rightarrow> jsval outcome" where
  "get_prop JUndefined k = Rejected js_TypeError"
| "get_prop JNull k = Rejected js_TypeError"
| "get_prop (JObj kvs) k = Resolved (case map_of kvs k of None \<Rightarrow> JUndefined | Some v \<Rightarrow> v)"
| "get_prop v k = Resolved JUndefined"

text \<open>HTTP requests as the code issues them through the global \<^verbatim>\<open>fetch\<close>.\<close>

datatype http_method = GET | POST

record request =
  req_method :: http_method
  req_url :: string
  req_authorization :: string

text \<open>
  Everything the code does to the outside world is recorded, in order, as an event:
  requests, console output, timers, the calls to the lock, to the guarded function, to the
  permission callback and to the API client's \<^verbatim>\<open>reset\<close>.
\<close>

datatype event =
    EvFetch request
  | EvLog string
  | EvWarn string
  | EvError string
  | EvTimeout nat
  | EvAcquire
  | EvFunc
  | EvRelease
  | EvPermission
  | EvApiReset

section \<open>runWithLock\<close>

text \<open>
  \<^verbatim>\<open>
  async runWithLock(func: Function, message: string) {
    try {
      const acquired = await this.lock.acquire();
      if (!acquired) {
        console.warn(message);
      }
      const result = await func();
      return result;
    } finally {
      this.lock.release();
    }
  }
  \<close>
  The lock (\<^verbatim>\<open>asyncLock\<close> of netlify-cms-lib-util) and the guarded function are
  collaborators, given by how they behave in this run: how \<^verbatim>\<open>acquire()\<close> settles
  (resolved with the obtained flag, or rejected), how \<^verbatim>\<open>func()\<close> settles, and whether
  \<^verbatim>\<open>release()\<close> returns (\<open>None\<close>) or throws (\<open>Some e\<close>). A \<^verbatim>\<open>throw\<close> in the
  \<^verbatim>\<open>finally\<close> block replaces the outcome of the \<^verbatim>\<open>try\<close> block.
\<close>

record lock =
  acquire :: "bool outcome"
  release :: "jsval option"

definition run_finally :: "lock \<Rightarrow> jsval outcome \<times> event list \<Rightarrow> jsval outcome \<times> event list" where
  "run_finally l r =
     (case release l of
        None \<Rightarrow> (fst r, snd r @ [EvRelease])
      | Some e \<Rightarrow> (Rejected e, snd r @ [EvRelease]))"

definition runWithLock_try :: "lock \<Rightarrow> jsval outcome \<Rightarrow> string \<Rightarrow> event list \<Rightarrow> jsval outcome \<times> event list" where
  "runWithLock_try l func message tr =
     (case acquire l of
        Rejected e \<Rightarrow> (Rejected e, tr @ [EvAcquire])
      | Resolved acquired \<Rightarrow>
          (let tr1 = tr @ [EvAcquire];
               tr2 = (if \<not> acquired then tr1 @ [EvWarn message] else tr1)
           in (func, tr2 @ [EvFunc])))"

definition runWithLock :: "lock \<Rightarrow> jsval outcome \<Rightarrow> string \<Rightarrow> event list \<Rightarrow> jsval outcome \<times> event list" where
  "runWithLock l func message tr = run_finally l (runWithLock_try l func message tr)"

section \<open>The backend's state and the network\<close>

text \<open>
  The fields of the class \<^verbatim>\<open>GitHub\<close> that the fork resolution and \<^verbatim>\<open>logout\<close> read or
  write. \<^verbatim>\<open>repo\<close> is a JavaScript value: it is assigned \<^verbatim>\<open>fork.full_name\<close> from parsed
  JSON, and is \<^verbatim>\<open>undefined\<close> until then when open authoring is on. A cached promise is
  stored as its outcome; \<^verbatim>\<open>_userIsOriginMaintainerPromises\<close> is an object used as a
  dictionary from user names to promises. Of the API client only what \<^verbatim>\<open>logout\<close> asks
  is kept: whether it has a \<^verbatim>\<open>reset\<close> function. \<open>events\<close> is the trace so far and
  \<open>nfetch\<close> the number of requests issued so far.
\<close>

record api_instance =
  reset_is_function :: bool

record backend =
  originRepo :: string
  repo :: jsval
  openAuthoringEnabled :: bool
  useOpenAuthoring :: "bool option"
  apiRoot :: string
  token :: "string option"
  api :: "api_instance option"
  currentUserPromise :: "jsval outcome option"
  userIsOriginMaintainerPromises :: "(string \<times> bool outcome) list option"
  events :: "event list"
  nfetch :: nat

text \<open>
  A response of \<^verbatim>\<open>fetch\<close>: its HTTP status and how \<^verbatim>\<open>res.json()\<close> settles. The network
  is a parameter: what the \<open>n\<close>-th request of the run gets, so that the same request
  can get different answers over time (polling).
\<close>

record response =
  resp_status :: nat
  resp_json :: "jsval outcome"

type_synonym network = "nat \<Rightarrow> request \<Rightarrow> response outcome"

definition fetch :: "network \<Rightarrow> request \<Rightarrow> backend \<Rightarrow> response outcome \<times> backend" where
  "fetch net rq s =
     (net (nfetch s) rq, s\<lparr>events := events s @ [EvFetch rq], nfetch := Suc (nfetch s)\<rparr>)"

text \<open>\<^verbatim>\<open>.then(res => res.json())\<close> on the promise of a response.\<close>

definition then_json :: "response outcome \<Rightarrow> jsval outcome" where
  "then_json r = (case r of Rejected e \<Rightarrow> Rejected e | Resolved res \<Rightarrow> resp_json res)"

text \<open>The string a template literal \<^verbatim>\<open>`${v}`\<close> (or a property key) makes of a value.\<close>

fun digits :: "nat \<Rightarrow> string" where
  "digits n = (if n < 10 then [char_of (48 + n)] else digits (n div 10) @ [char_of (48 + n mod 10)])"

declare digits.simps [simp del]

fun to_string :: "jsval \<Rightarrow> string" where
  "to_string JUndefined = ''undefined''"
| "to_string JNull = ''null''"
| "to_string (JBool b) = (if b then ''true'' else ''false'')"
| "to_string (JNum n) = (if n < 0 then ''-'' @ digits (nat (- n)) else digits (nat n))"
| "to_string (JStr s) = s"
| "to_string (JObj kvs) = ''[object Object]''"

definition auth_header :: "string \<Rightarrow> string" where
  "auth_header tok = ''token '' @ tok"

section \<open>currentUser and userIsOriginMaintainer\<close>

text \<open>
  \<^verbatim>\<open>
  async currentUser({ token }) {
    if (!this._currentUserPromise) {
      this._currentUserPromise = fetch(`${this.apiRoot}/user`, {
        headers: { Authorization: `token ${token}` },
      }).then(res => res.json());
    }
    return this._currentUserPromise;
  }
  \<close>
\<close>

definition currentUser :: "network \<Rightarrow> string \<Rightarrow> backend \<Rightarrow> jsval outcome \<times> backend" where
  "currentUser net tok s =
     (case currentUserPromise s of
        Some p \<Rightarrow> (p, s)
      | None \<Rightarrow>
          (let (r, s1) = fetch net \<lparr>req_method = GET, req_url = apiRoot s @ ''/user'',
                                    req_authorization = auth_header tok\<rparr> s;
               p = then_json r
           in (p, s1\<lparr>currentUserPromise := Some p\<rparr>)))"

text \<open>
  \<^verbatim>\<open>
  async userIsOriginMaintainer({ username: usernameArg, token }) {
    const username = usernameArg || (await this.currentUser({ token })).login;
    this._userIsOriginMaintainerPromises = this._userIsOriginMaintainerPromises || {};
    if (!this._userIsOriginMaintainerPromises[username]) {
      this._userIsOriginMaintainerPromises[username] = fetch(
        `${this.apiRoot}/repos/${this.originRepo}/collaborators/${username}/permission`,
        { headers: { Authorization: `token ${token}` } },
      )
        .then(res => res.json())
        .then(({ permission }) => permission === 'admin' || permission === 'write');
    }
    return this._userIsOriginMaintainerPromises[username];
  }
  \<close>
  Destructuring \<^verbatim>\<open>{ permission }\<close> throws on \<^verbatim>\<open>null\<close> and \<^verbatim>\<open>undefined\<close> as property access
  does. The dictionary is a plain object \<^verbatim>\<open>{}\<close>: looking up a name that
  \<^verbatim>\<open>Object.prototype\<close> defines (a user called \<^verbatim>\<open>constructor\<close>) finds the inherited member,
  which is truthy, so that no request is made and the member itself is returned; all the
  callers do with the result is test its truthiness, and the model returns \<^verbatim>\<open>true\<close> for
  it.
\<close>

definition then_permission :: "jsval outcome \<Rightarrow> bool outcome" where
  "then_permission r =
     (case r of
        Rejected e \<Rightarrow> Rejected e
      | Resolved v \<Rightarrow>
          (case get_prop v ''permission'' of
             Rejected e \<Rightarrow> Rejected e
           | Resolved permission \<Rightarrow>
               Resolved (permission = JStr ''admin'' \<or> permission = JStr ''write'')))"

definition inherited_property :: "string \<Rightarrow> bool" where
  "inherited_property k =
     (k \<in> set [''constructor'', ''hasOwnProperty'', ''isPrototypeOf'', ''propertyIsEnumerable'',
                ''toLocaleString'', ''toString'', ''valueOf'', ''__proto__'',
                ''__defineGetter__'', ''__defineSetter__'', ''__lookupGetter__'',
                ''__lookupSetter__''])"

definition maintainer_lookup :: "network \<Rightarrow> jsval \<Rightarrow> string \<Rightarrow> backend \<Rightarrow> bool outcome \<times> backend" where
  "maintainer_lookup net username tok s =
     (let promises = (case userIsOriginMaintainerPromises s of None \<Rightarrow> [] | Some m \<Rightarrow> m);
          s1 = s\<lparr>userIsOriginMaintainerPromises := Some promises\<rparr>
      in case map_of promises (to_string username) of
           Some p \<Rightarrow> (p, s1)
         | None \<Rightarrow>
             if inherited_property (to_string username) then (Resolved True, s1)
             else
             (let (r, s2) = fetch net
                    \<lparr>req_method = GET,
                     req_url = apiRoot s1 @ ''/repos/'' @ originRepo s1 @ ''/collaborators/''
                               @ to_string username @ ''/permission'',
                     req_authorization = auth_header tok\<rparr> s1;
                  p = then_permission (then_json r)
              in (p, s2\<lparr>userIsOriginMaintainerPromises :=
                           Some ((to_string username, p) # promises)\<rparr>)))"

definition userIsOriginMaintainer ::
    "network \<Rightarrow> string option \<Rightarrow> string \<Rightarrow> backend \<Rightarrow> bool outcome \<times> backend" where
  "userIsOriginMaintainer net usernameArg tok s =
     (case (case usernameArg of None \<Rightarrow> None | Some u \<Rightarrow> if u = [] then None else Some u) of
        Some u \<Rightarrow> maintainer_lookup net (JStr u) tok s
      | None \<Rightarrow>
          (let (p, s1) = currentUser net tok s
           in case p of
                Rejected e \<Rightarrow> (Rejected e, s1)
              | Resolved user \<Rightarrow>
                  (case get_prop user ''login'' of
                     Rejected e \<Rightarrow> (Rejected e, s1)
                   | Resolved username \<Rightarrow> maintainer_lookup net username tok s1)))"

section \<open>forkExists\<close>

text \<open>
  \<^verbatim>\<open>String.prototype.split\<close> on a one-character separator, indexing with \<^verbatim>\<open>[i]\<close>
  (\<^verbatim>\<open>undefined\<close> out of range) and \<^verbatim>\<open>toLowerCase\<close> (on the letters A to Z; the other
  characters are left as they are).
\<close>

fun split_on :: "char \<Rightarrow> string \<Rightarrow> string list" where
  "split_on c [] = [[]]"
| "split_on c (x # xs) =
     (if x = c then [] # split_on c xs
      else (case split_on c xs of [] \<Rightarrow> [[x]] | w # ws \<Rightarrow> (x # w) # ws))"

definition index_or_undefined :: "string list \<Rightarrow> nat \<Rightarrow> jsval" where
  "index_or_undefined xs i = (if i < length xs then JStr (xs ! i) else JUndefined)"

definition lower_char :: "char \<Rightarrow> char" where
  "lower_char c =
     (let n = (of_char c :: nat) in if 65 \<le> n \<and> n \<le> 90 then char_of (n + 32) else c)"

definition toLowerCase :: "string \<Rightarrow> string" where
  "toLowerCase s = map lower_char s"

text \<open>
  \<^verbatim>\<open>
  async forkExists({ token }) {
    try {
      const currentUser = await this.currentUser({ token });
      const repoName = this.originRepo.split('/')[1];
      const repo = await fetch(`${this.apiRoot}/repos/${currentUser.login}/${repoName}`, {
        method: 'GET',
        headers: { Authorization: `token ${token}` },
      }).then(res => res.json());
      const forkExists =
        repo.fork === true &&
        repo.parent &&
        repo.parent.full_name.toLowerCase() === this.originRepo.toLowerCase();
      return forkExists;
    } catch {
      return false;
    }
  }
  \<close>
  The value returned is the value of the \<^verbatim>\<open>&&\<close> chain: \<^verbatim>\<open>false\<close>, a falsy \<^verbatim>\<open>repo.parent\<close>,
  or the result of the comparison. Every exception ends in \<^verbatim>\<open>return false\<close>; calling
  \<^verbatim>\<open>toLowerCase\<close> on a \<^verbatim>\<open>full_name\<close> that is not a string is a TypeError.
\<close>

definition fork_check :: "string \<Rightarrow> jsval \<Rightarrow> jsval" where
  "fork_check origin repo_json =
     (case get_prop repo_json ''fork'' of
        Rejected e \<Rightarrow> JBool False
      | Resolved fk \<Rightarrow>
          if fk \<noteq> JBool True then JBool False
          else (case get_prop repo_json ''parent'' of
                  Rejected e \<Rightarrow> JBool False
                | Resolved parent \<Rightarrow>
                    if \<not> truthy parent then parent
                    else (case get_prop parent ''full_name'' of
                            Resolved (JStr full_name) \<Rightarrow>
                              JBool (toLowerCase full_name = toLowerCase origin)
                          | _ \<Rightarrow> JBool False)))"

definition forkExists :: "network \<Rightarrow> string \<Rightarrow> backend \<Rightarrow> jsval \<times> backend" where
  "forkExists net tok s =
     (let (p, s1) = currentUser net tok s
      in case p of
           Rejected e \<Rightarrow> (JBool False, s1)
         | Resolved user \<Rightarrow>
             (case get_prop user ''login'' of
                Rejected e \<Rightarrow> (JBool False, s1)
              | Resolved login \<Rightarrow>
                  (let repoName = index_or_undefined (split_on CHR ''/'' (originRepo s1)) 1;
                       (r, s2) = fetch net
                          \<lparr>req_method = GET,
                           req_url = apiRoot s1 @ ''/repos/'' @ to_string login @ ''/''
                                     @ to_string repoName,
                           req_authorization = auth_header tok\<rparr> s1
                   in case then_json r of
                        Rejected e \<Rightarrow> (JBool False, s2)
                      | Resolved repo_json \<Rightarrow> (fork_check (originRepo s2) repo_json, s2))))"

section \<open>pollUntilForkExists\<close>

text \<open>
  \<^verbatim>\<open>
  async pollUntilForkExists({ repo, token }) {
    const pollDelay = 250; // milliseconds
    let repoExists = false;
    while (!repoExists) {
      repoExists = await fetch(`${this.apiRoot}/repos/${repo}`, {
        headers: { Authorization: `token ${token}` },
      })
        .then(() => true)
        .catch(err => {
          if (err && err.status === 404) {
            console.log('This 404 was expected and handled appropriately.');
            return false;
          } else {
            return Promise.reject(err);
          }
        });
      // wait between polls
      if (!repoExists) {
        await new Promise(resolve => setTimeout(resolve, pollDelay));
      }
    }
    return Promise.resolve();
  }
  \<close>
  The loop has no bound. The model takes fuel, one unit for each iteration: with the
  fuel used up the loop is still running (\<open>None\<close>), and the state holds what it has done
  so far. \<^verbatim>\<open>.then(() => true)\<close> does not look at the response: a probe succeeds when the
  promise of \<^verbatim>\<open>fetch\<close> resolves, whatever the status of the response. The promise of
  \<^verbatim>\<open>fetch\<close> resolves as soon as the server has answered, with a response of any status,
  404 included; it rejects when no answer arrives. The 404 the handler looks for is the
  \<^verbatim>\<open>status\<close> property of the rejection reason, compared with \<^verbatim>\<open>===\<close>.
\<close>

definition pollDelay :: nat where
  "pollDelay = 250"

definition is_404 :: "jsval \<Rightarrow> bool" where
  "is_404 err = (truthy err \<and> get_prop err ''status'' = Resolved (JNum 404))"

definition probe_request :: "backend \<Rightarrow> jsval \<Rightarrow> string \<Rightarrow> request" where
  "probe_request s repo_name tok =
     \<lparr>req_method = GET, req_url = apiRoot s @ ''/repos/'' @ to_string repo_name,
      req_authorization = auth_header tok\<rparr>"

fun pollUntilForkExists ::
    "network \<Rightarrow> nat \<Rightarrow> jsval \<Rightarrow> string \<Rightarrow> backend \<Rightarrow> jsval outcome option \<times> backend" where
  "pollUntilForkExists net 0 repo_name tok s = (None, s)"
| "pollUntilForkExists net (Suc n) repo_name tok s =
     (let (r, s1) = fetch net (probe_request s repo_name tok) s
      in case r of
           Resolved res \<Rightarrow> (Some (Resolved JUndefined), s1)
         | Rejected err \<Rightarrow>
             if is_404 err
             then pollUntilForkExists net n repo_name tok
                    (s1\<lparr>events := events s1 @
                          [EvLog ''This 404 was expected and handled appropriately.'',
                           EvTimeout pollDelay]\<rparr>)
             else (Some (Rejected err), s1))"

section \<open>authenticateWithFork and logout\<close>

text \<open>
  \<^verbatim>\<open>
  async authenticateWithFork({ userData, getPermissionToFork }) {
    if (!this.openAuthoringEnabled) {
      throw new Error('Cannot authenticate with fork; Open Authoring is turned off.');
    }
    const { token } = userData;

    // Origin maintainers should be able to use the CMS normally
    if (await this.userIsOriginMaintainer({ token })) {
      this.repo = this.originRepo;
      this.useOpenAuthoring = false;
      return Promise.resolve();
    }

    if (!(await this.forkExists({ token }))) {
      await getPermissionToFork();
    }

    const fork = await fetch(`${this.apiRoot}/repos/${this.originRepo}/forks`, {
      method: 'POST',
      headers: { Authorization: `token ${token}` },
    }).then(res => res.json());
    this.useOpenAuthoring = true;
    this.repo = fork.full_name;
    return this.pollUntilForkExists({ repo: fork.full_name, token });
  }
  \<close>
  \<^verbatim>\<open>getPermissionToFork\<close> is the caller's callback, given by how it settles; its value is
  not used. The fuel is the fuel of the polling loop, and the result is \<open>None\<close> while that
  loop is still running.
\<close>

definition fork_request :: "backend \<Rightarrow> string \<Rightarrow> request" where
  "fork_request s tok =
     \<lparr>req_method = POST, req_url = apiRoot s @ ''/repos/'' @ originRepo s @ ''/forks'',
      req_authorization = auth_header tok\<rparr>"

definition create_fork_and_poll ::
    "network \<Rightarrow> nat \<Rightarrow> string \<Rightarrow> backend \<Rightarrow> jsval outcome option \<times> backend" where
  "create_fork_and_poll net fuel tok s =
     (let (r, s1) = fetch net (fork_request s tok) s
      in case then_json r of
           Rejected e \<Rightarrow> (Some (Rejected e), s1)
         | Resolved fork \<Rightarrow>
             (let s2 = s1\<lparr>useOpenAuthoring := Some True\<rparr>
              in case get_prop fork ''full_name'' of
                   Rejected e \<Rightarrow> (Some (Rejected e), s2)
                 | Resolved full_name \<Rightarrow>
                     pollUntilForkExists net fuel full_name tok (s2\<lparr>repo := full_name\<rparr>)))"

definition authenticateWithFork ::
    "network \<Rightarrow> nat \<Rightarrow> bool outcome \<Rightarrow> string \<Rightarrow> backend \<Rightarrow> jsval outcome option \<times> backend" where
  "authenticateWithFork net fuel getPermissionToFork tok s =
     (if \<not> openAuthoringEnabled s
      then (Some (Rejected (js_Error ''Cannot authenticate with fork; Open Authoring is turned off.'')), s)
      else
        (let (m, s1) = userIsOriginMaintainer net None tok s
         in case m of
              Rejected e \<Rightarrow> (Some (Rejected e), s1)
            | Resolved True \<Rightarrow>
                (Some (Resolved JUndefined),
                 s1\<lparr>repo := JStr (originRepo s1), useOpenAuthoring := Some False\<rparr>)
            | Resolved False \<Rightarrow>
                (let (fe, s2) = forkExists net tok s1
                 in if \<not> truthy fe
                    then (let s3 = s2\<lparr>events := events s2 @ [EvPermission]\<rparr>
                          in case getPermissionToFork of
                               Rejected e \<Rightarrow> (Some (Rejected e), s3)
                             | Resolved granted \<Rightarrow> create_fork_and_poll net fuel tok s3)
                    else create_fork_and_poll net fuel tok s2)))"

text \<open>
  \<^verbatim>\<open>
  logout() {
    this.token = null;
    if (this.api && this.api.reset && typeof this.api.reset === 'function') {
      return this.api.reset();
    }
  }
  \<close>
\<close>

definition logout :: "backend \<Rightarrow> backend" where
  "logout s =
     (let s1 = s\<lparr>token := None\<rparr>
      in case api s1 of
           None \<Rightarrow> s1
         | Some a \<Rightarrow> if reset_is_function a then s1\<lparr>events := events s1 @ [EvApiReset]\<rparr> else s1)"

section \<open>The bounded fetcher: semaphore, promises and the event loop\<close>

text \<open>
  Modelled from the spec: the counting semaphore of the \<^verbatim>\<open>semaphore\<close> package, which
  \<^verbatim>\<open>fetchFiles\<close> and \<^verbatim>\<open>unpublishedEntries\<close> create with
  \<^verbatim>\<open>semaphore(MAX_CONCURRENT_DOWNLOADS)\<close> and which is not part of the source. It has a
  capacity, the number of slots taken and a FIFO queue of waiting tasks (here: the index of
  the work item whose task waits). \<^verbatim>\<open>take(task)\<close> runs the task at once when a slot is free
  and queues it otherwise; \<^verbatim>\<open>leave()\<close> frees a slot and, when a task waits and fits, takes
  the slot for it and hands it to \<^verbatim>\<open>nextTick\<close>; it throws when more slots are left than
  were taken.
\<close>

record semaphore =
  capacity :: nat
  current :: int
  waiting :: "nat list"

datatype left = LeaveThrew | LeaveDone | LeaveNext nat

definition sem_take :: "nat \<Rightarrow> semaphore \<Rightarrow> semaphore \<times> bool" where
  "sem_take i sm =
     (if current sm + 1 > int (capacity sm)
      then (sm\<lparr>waiting := waiting sm @ [i]\<rparr>, False)
      else (sm\<lparr>current := current sm + 1\<rparr>, True))"

definition sem_leave :: "semaphore \<Rightarrow> semaphore \<times> left" where
  "sem_leave sm =
     (let sm1 = sm\<lparr>current := current sm - 1\<rparr>
      in case waiting sm1 of
           [] \<Rightarrow> if current sm1 < 0 then (sm1, LeaveThrew) else (sm1, LeaveDone)
         | j # rest \<Rightarrow>
             if 1 + current sm1 > int (capacity sm1) then (sm1, LeaveDone)
             else (sm1\<lparr>current := current sm1 + 1, waiting := rest\<rparr>, LeaveNext j))"

definition MAX_CONCURRENT_DOWNLOADS :: nat where
  "MAX_CONCURRENT_DOWNLOADS = 10"

text \<open>
  The state of one run of the fetcher: the semaphore, the tasks handed to \<^verbatim>\<open>nextTick\<close>
  that have not run yet, the work items whose read has been started and has not settled,
  the array \<^verbatim>\<open>promises\<close> (\<open>None\<close>: pending, \<open>Some v\<close>: resolved with \<open>v\<close>), the console,
  and the number of rejections nobody handles.
\<close>

record 'r pool =
  sem :: semaphore
  ticks :: "nat list"
  reading :: "nat list"
  promises :: "'r option list"
  console :: "event list"
  unhandled :: nat

definition pool_init :: "'r pool" where
  "pool_init =
     \<lparr>sem = \<lparr>capacity = MAX_CONCURRENT_DOWNLOADS, current = 0, waiting = []\<rparr>,
      ticks = [], reading = [], promises = [], console = [], unhandled = 0\<rparr>"

text \<open>
  \<^verbatim>\<open>sem.take(() => read(...))\<close>: the task is the read of work item \<open>i\<close>. \<^verbatim>\<open>sem.leave()\<close>,
  with whether it threw. \<^verbatim>\<open>resolve(v)\<close> on the promise of item \<open>i\<close>: a promise that is
  already resolved stays as it is.
\<close>

definition take :: "nat \<Rightarrow> 'r pool \<Rightarrow> 'r pool" where
  "take i st =
     (case sem_take i (sem st) of
        (sm, True) \<Rightarrow> st\<lparr>sem := sm, reading := reading st @ [i]\<rparr>
      | (sm, False) \<Rightarrow> st\<lparr>sem := sm\<rparr>)"

definition leave :: "'r pool \<Rightarrow> 'r pool \<times> bool" where
  "leave st =
     (case sem_leave (sem st) of
        (sm, LeaveThrew) \<Rightarrow> (st\<lparr>sem := sm\<rparr>, True)
      | (sm, LeaveDone) \<Rightarrow> (st\<lparr>sem := sm\<rparr>, False)
      | (sm, LeaveNext j) \<Rightarrow> (st\<lparr>sem := sm, ticks := ticks st @ [j]\<rparr>, False))"

definition resolve_promise :: "nat \<Rightarrow> 'r \<Rightarrow> 'r pool \<Rightarrow> 'r pool" where
  "resolve_promise i v st =
     (if i < length (promises st) \<and> promises st ! i = None
      then st\<lparr>promises := (promises st)[i := Some v]\<rparr>
      else st)"

text \<open>
  The event loop runs one task at a time, each to completion. A schedule is the list of
  the tasks it runs: the next iteration of the \<^verbatim>\<open>forEach\<close> over the work items, the next
  callback of \<^verbatim>\<open>nextTick\<close>, or the handlers of a read that settles. A task that cannot run
  in a state (no work item left, no callback waiting, no such read in flight) makes the
  schedule impossible: \<open>None\<close>. Schedules may interleave more freely than the event loop
  does (it runs the whole \<^verbatim>\<open>forEach\<close> first); what holds for all of them holds for its.
\<close>

datatype action = Push | Tick | Settle nat

fun run :: "(action \<Rightarrow> 'st \<Rightarrow> 'st option) \<Rightarrow> action list \<Rightarrow> 'st \<Rightarrow> 'st option" where
  "run fire [] st = Some st"
| "run fire (a # as) st = (case fire a st of None \<Rightarrow> None | Some st' \<Rightarrow> run fire as st')"

definition push_task :: "nat \<Rightarrow> 'r pool \<Rightarrow> 'r pool option" where
  "push_task n st =
     (let i = length (promises st)
      in if i < n then Some (take i (st\<lparr>promises := promises st @ [None]\<rparr>)) else None)"

definition tick_task :: "'r pool \<Rightarrow> 'r pool option" where
  "tick_task st =
     (case ticks st of
        [] \<Rightarrow> None
      | j # rest \<Rightarrow> Some (st\<lparr>ticks := rest, reading := reading st @ [j]\<rparr>))"

section \<open>fetchFiles\<close>

text \<open>
  \<^verbatim>\<open>
  fetchFiles = (files, { repoURL = this.api!.repoURL } = {}) => {
    const sem = semaphore(MAX_CONCURRENT_DOWNLOADS);
    const promises = [];
    files.forEach(file => {
      promises.push(
        new Promise(resolve =>
          sem.take(() =>
            this.api!.readFile(file.path, file.sha, { repoURL })
              .then(data => {
                resolve({ file, data: data as string, error: false });
                sem.leave();
              })
              .catch((err = true) => {
                sem.leave();
                console.error(`failed to load file from GitHub: ${file.path}`);
                resolve({ error: err });
              }),
          ),
        ),
      );
    });
    return Promise.all(promises).then(loadedEntries =>
      loadedEntries.filter(loadedEntry => !loadedEntry.error),
    );
  };
  \<close>
  The API client is a parameter (record \<open>repository_api\<close>): \<open>readFile api i f\<close> is how
  the read started for the \<open>i\<close>-th work item, the file \<open>f\<close>, settles. A loaded entry is either
  \<^verbatim>\<open>{ file, data, error: false }\<close> or \<^verbatim>\<open>{ error: err }\<close>; the default \<^verbatim>\<open>err = true\<close> applies
  when the rejection reason is \<^verbatim>\<open>undefined\<close>, and only then. An exception in the
  \<^verbatim>\<open>then\<close> handler (a \<^verbatim>\<open>sem.leave()\<close> that throws) is caught by the \<^verbatim>\<open>catch\<close> handler.
  The client is there and its \<^verbatim>\<open>readFile\<close> returns a promise: \<^verbatim>\<open>fetchFiles\<close> is called after
  \<^verbatim>\<open>authenticate\<close> has built the client. \<^verbatim>\<open>repoURL\<close> is handed on to the client as it is.
\<close>

record file_item =
  path :: string
  sha :: "string option"

record metaData =
  collection :: string
  entry_path :: string

record unpublished_branch_result =
  metaData :: metaData
  fileData :: string
  isModification :: bool

record repository_api =
  readFile :: "nat \<Rightarrow> file_item \<Rightarrow> string outcome"
  listUnpublishedBranches :: "string list outcome"
  readUnpublishedBranchFile :: "nat \<Rightarrow> string \<Rightarrow> unpublished_branch_result option outcome"
  contentKeyFromRef :: "string \<Rightarrow> string"
  slugFromContentKey :: "string \<Rightarrow> string \<Rightarrow> string"

datatype loaded = Loaded file_item string | LoadError jsval

fun error_of :: "loaded \<Rightarrow> jsval" where
  "error_of (Loaded f d) = JBool False"
| "error_of (LoadError err) = err"

definition fetchFiles_catch :: "file_item \<Rightarrow> jsval \<Rightarrow> nat \<Rightarrow> loaded pool \<Rightarrow> loaded pool" where
  "fetchFiles_catch f reason i st =
     (let err = (if reason = JUndefined then JBool True else reason);
          (st1, threw) = leave st
      in if threw then st1\<lparr>unhandled := Suc (unhandled st1)\<rparr>
         else resolve_promise i (LoadError err)
                (st1\<lparr>console := console st1 @
                       [EvError (''failed to load file from GitHub: '' @ path f)]\<rparr>))"

definition fetchFiles_then :: "file_item \<Rightarrow> string \<Rightarrow> nat \<Rightarrow> loaded pool \<Rightarrow> loaded pool" where
  "fetchFiles_then f d i st =
     (let (st1, threw) = leave (resolve_promise i (Loaded f d) st)
      in if threw then fetchFiles_catch f (js_Error ''leave called too many times.'') i st1
         else st1)"

definition fetchFiles_fire ::
    "repository_api \<Rightarrow> file_item list \<Rightarrow> action \<Rightarrow> loaded pool \<Rightarrow> loaded pool option" where
  "fetchFiles_fire api_client files a st =
     (case a of
        Push \<Rightarrow> push_task (length files) st
      | Tick \<Rightarrow> tick_task st
      | Settle i \<Rightarrow>
          if i \<in> set (reading st) \<and> i < length files
          then (let st1 = st\<lparr>reading := removeAll i (reading st)\<rparr>
                in case readFile api_client i (files ! i) of
                     Resolved d \<Rightarrow> Some (fetchFiles_then (files ! i) d i st1)
                   | Rejected reason \<Rightarrow> Some (fetchFiles_catch (files ! i) reason i st1))
          else None)"

text \<open>
  \<^verbatim>\<open>Promise.all(promises)\<close> is called when the \<^verbatim>\<open>forEach\<close> is over; it resolves when every
  promise of the array has resolved (none of them can reject: their executors only ever
  call \<^verbatim>\<open>resolve\<close>). \<open>fetchFiles\<close> gives what the returned promise has become after a
  schedule: \<open>None\<close> while it is pending.
\<close>

definition fetchFiles_settled :: "file_item list \<Rightarrow> loaded pool \<Rightarrow> loaded list outcome option" where
  "fetchFiles_settled files st =
     (if length (promises st) = length files
      then (case those (promises st) of
              None \<Rightarrow> None
            | Some loadedEntries \<Rightarrow>
                Some (Resolved (filter (\<lambda>loadedEntry. \<not> truthy (error_of loadedEntry)) loadedEntries)))
      else None)"

definition fetchFiles ::
    "repository_api \<Rightarrow> file_item list \<Rightarrow> action list \<Rightarrow> loaded list outcome option" where
  "fetchFiles api_client files schedule =
     (case run (fetchFiles_fire api_client files) schedule pool_init of
        None \<Rightarrow> None
      | Some st \<Rightarrow> fetchFiles_settled files st)"

section \<open>unpublishedEntries\<close>

text \<open>
  \<^verbatim>\<open>
  unpublishedEntries() {
    return this.api!.listUnpublishedBranches()
      .then(branches => {
        const sem = semaphore(MAX_CONCURRENT_DOWNLOADS);
        const promises = [];
        branches.map(({ ref }) => {
          promises.push(
            new Promise(resolve => {
              const contentKey = this.api!.contentKeyFromRef(ref);
              return sem.take(() =>
                this.api!.readUnpublishedBranchFile(contentKey)
                  .then((data: UnpublishedBranchResult) => {
                    if (data === null || data === undefined) {
                      resolve(null);
                      sem.leave();
                    } else {
                      resolve({
                        slug: this.api!.slugFromContentKey(contentKey, data.metaData.collection),
                        file: { path: data.metaData.objects.entry.path },
                        data: data.fileData,
                        metaData: data.metaData,
                        isModification: data.isModification,
                      });
                      sem.leave();
                    }
                  })
                  .catch(() => {
                    sem.leave();
                    resolve(null);
                  }),
              );
            }),
          );
        });
        return Promise.all(promises).then(entries => entries.filter(entry => entry !== null));
      })
      .catch(error => {
        if (error.message === 'Not Found') {
          return Promise.resolve([]);
        }
        return Promise.reject(error);
      });
  }
  \<close>
  A branch is given by its \<^verbatim>\<open>ref\<close>. The value a promise of the array resolves with is an
  entry or \<^verbatim>\<open>null\<close> (\<open>None\<close>). The last \<^verbatim>\<open>catch\<close> handles a rejection of
  \<^verbatim>\<open>listUnpublishedBranches\<close> and of the \<^verbatim>\<open>then\<close> callback alike; reading \<^verbatim>\<open>error.message\<close>
  throws when the reason is \<^verbatim>\<open>undefined\<close> or \<^verbatim>\<open>null\<close>. The client's \<^verbatim>\<open>contentKeyFromRef\<close> and
  \<^verbatim>\<open>slugFromContentKey\<close> are functions that return, and the data of a branch has the fields
  its type declares (\<^verbatim>\<open>data.metaData.objects.entry.path\<close> is \<open>entry_path\<close>).
\<close>

record implementation_entry =
  slug :: string
  entry_file_path :: string
  entry_data :: string
  entry_metaData :: metaData
  entry_isModification :: bool

definition unpublished_catch ::
    "nat \<Rightarrow> implementation_entry option pool \<Rightarrow> implementation_entry option pool" where
  "unpublished_catch i st =
     (let (st1, threw) = leave st
      in if threw then st1\<lparr>unhandled := Suc (unhandled st1)\<rparr>
         else resolve_promise i None st1)"

definition unpublished_then ::
    "repository_api \<Rightarrow> string \<Rightarrow> unpublished_branch_result option \<Rightarrow> nat
      \<Rightarrow> implementation_entry option pool \<Rightarrow> implementation_entry option pool" where
  "unpublished_then api_client contentKey branch_data i st =
     (let entry =
            (case branch_data of
               None \<Rightarrow> None
             | Some d \<Rightarrow>
                 Some \<lparr>slug = slugFromContentKey api_client contentKey (collection (metaData d)),
                       entry_file_path = entry_path (metaData d),
                       entry_data = fileData d,
                       entry_metaData = metaData d,
                       entry_isModification = isModification d\<rparr>);
          (st1, threw) = leave (resolve_promise i entry st)
      in if threw then unpublished_catch i st1 else st1)"

definition unpublished_fire ::
    "repository_api \<Rightarrow> string list \<Rightarrow> action
      \<Rightarrow> implementation_entry option pool \<Rightarrow> implementation_entry option pool option" where
  "unpublished_fire api_client branches a st =
     (case a of
        Push \<Rightarrow> push_task (length branches) st
      | Tick \<Rightarrow> tick_task st
      | Settle i \<Rightarrow>
          if i \<in> set (reading st) \<and> i < length branches
          then (let st1 = st\<lparr>reading := removeAll i (reading st)\<rparr>;
                    contentKey = contentKeyFromRef api_client (branches ! i)
                in case readUnpublishedBranchFile api_client i contentKey of
                     Resolved branch_data \<Rightarrow>
                       Some (unpublished_then api_client contentKey branch_data i st1)
                   | Rejected reason \<Rightarrow> Some (unpublished_catch i st1))
          else None)"

definition unpublished_settled ::
    "string list \<Rightarrow> implementation_entry option pool
      \<Rightarrow> implementation_entry option list outcome option" where
  "unpublished_settled branches st =
     (if length (promises st) = length branches
      then (case those (promises st) of
              None \<Rightarrow> None
            | Some entries \<Rightarrow> Some (Resolved (filter (\<lambda>entry. entry \<noteq> None) entries)))
      else None)"

definition catch_not_found :: "'a list outcome \<Rightarrow> 'a list outcome" where
  "catch_not_found r =
     (case r of
        Resolved v \<Rightarrow> Resolved v
      | Rejected error \<Rightarrow>
          (case get_prop error ''message'' of
             Rejected thrown \<Rightarrow> Rejected thrown
           | Resolved message \<Rightarrow>
               if message = JStr ''Not Found'' then Resolved [] else Rejected error))"

definition unpublishedEntries ::
    "repository_api \<Rightarrow> action list \<Rightarrow> implementation_entry option list outcome option" where
  "unpublishedEntries api_client schedule =
     (case listUnpublishedBranches api_client of
        Rejected error \<Rightarrow> Some (catch_not_found (Rejected error))
      | Resolved branches \<Rightarrow>
          (case run (unpublished_fire api_client branches) schedule pool_init of
             None \<Rightarrow> None
           | Some st \<Rightarrow>
               (case unpublished_settled branches st of
                  None \<Rightarrow> None
                | Some r \<Rightarrow> Some (catch_not_found r))))"

section \<open>The vocabulary of the properties\<close>

text \<open>How often an event occurs in a trace.\<close>

definition occurrences :: "event \<Rightarrow> event list \<Rightarrow> nat" where
  "occurrences e tr = length (filter (\<lambda>x. x = e) tr)"

text \<open>
  The identity queries, the fork lookup and the polling loop only issue GET requests, write
  to the console and set timers; they leave \<^verbatim>\<open>originRepo\<close>, \<^verbatim>\<open>apiRoot\<close> and
  \<^verbatim>\<open>openAuthoringEnabled\<close> alone. \<open>extends s s'\<close> says that \<open>s'\<close> comes from \<open>s\<close> by such
  steps.
\<close>

definition benign :: "event \<Rightarrow> bool" where
  "benign e =
     (case e of EvFetch rq \<Rightarrow> req_method rq = GET | EvLog m \<Rightarrow> True | EvTimeout d \<Rightarrow> True
      | _ \<Rightarrow> False)"

definition extends :: "backend \<Rightarrow> backend \<Rightarrow> bool" where
  "extends s s' =
     (originRepo s' = originRepo s \<and> apiRoot s' = apiRoot s
      \<and> openAuthoringEnabled s' = openAuthoringEnabled s
      \<and> (\<exists>evs. events s' = events s @ evs \<and> list_all benign evs))"

definition new_events :: "backend \<Rightarrow> backend \<Rightarrow> event list" where
  "new_events s s' = drop (length (events s)) (events s')"

text \<open>
  Whether a promise resolved, and the shape of the trace \<^verbatim>\<open>authenticateWithFork\<close> adds for
  an identity that is not a maintainer: what comes before the fork lookup has answered,
  the permission callback when no fork was found, and, unless that callback rejected, the
  fork-creation request and what follows it.
\<close>

definition resolved :: "'a outcome \<Rightarrow> bool" where
  "resolved r = (case r of Resolved v \<Rightarrow> True | Rejected e \<Rightarrow> False)"

definition contributor_trace :: "bool \<Rightarrow> bool \<Rightarrow> request \<Rightarrow> event list \<Rightarrow> event list \<Rightarrow> event list" where
  "contributor_trace fork_found permitted rq before after =
     before
     @ (if fork_found then [] else [EvPermission])
     @ (if fork_found \<or> permitted then EvFetch rq # after else [])"

text \<open>
  One round of the loop on a 404: the probe, the console message, the 250 ms timer. After
  \<open>k\<close> such rounds the backend has issued \<open>k\<close> requests more and its trace has grown by
  the \<open>k\<close> rounds; a further probe adds its request.
\<close>

definition poll_round :: "request \<Rightarrow> event list" where
  "poll_round rq =
     [EvFetch rq, EvLog ''This 404 was expected and handled appropriately.'', EvTimeout 250]"

definition after_rounds :: "nat \<Rightarrow> request \<Rightarrow> backend \<Rightarrow> backend" where
  "after_rounds k rq s =
     s\<lparr>nfetch := nfetch s + k, events := events s @ concat (replicate k (poll_round rq))\<rparr>"

definition after_probe :: "request \<Rightarrow> backend \<Rightarrow> backend" where
  "after_probe rq s = s\<lparr>nfetch := Suc (nfetch s), events := events s @ [EvFetch rq]\<rparr>"

definition rejects_404 :: "network \<Rightarrow> request \<Rightarrow> nat \<Rightarrow> bool" where
  "rejects_404 net rq i = (case net i rq of Rejected err \<Rightarrow> is_404 err | Resolved res \<Rightarrow> False)"

text \<open>
  Between two tasks of the event loop every read in flight and every task handed to
  \<^verbatim>\<open>nextTick\<close> holds a slot of the semaphore (\<open>bounded\<close>). While the handlers of a
  settled read run, its slot is still taken (\<open>holding\<close>), so that the one \<^verbatim>\<open>sem.leave()\<close>
  they call does not throw and restores \<open>bounded\<close>.
\<close>

definition bounded :: "'r pool \<Rightarrow> bool" where
  "bounded st =
     (int (length (reading st) + length (ticks st)) \<le> current (sem st)
      \<and> current (sem st) \<le> int (capacity (sem st))
      \<and> capacity (sem st) = MAX_CONCURRENT_DOWNLOADS
      \<and> unhandled st = 0)"

definition holding :: "'r pool \<Rightarrow> bool" where
  "holding st =
     (int (length (reading st) + length (ticks st)) < current (sem st)
      \<and> current (sem st) \<le> int (capacity (sem st))
      \<and> capacity (sem st) = MAX_CONCURRENT_DOWNLOADS
      \<and> unhandled st = 0)"

text \<open>
  The promise of work item \<open>i\<close> can only ever be resolved with \<open>load_entry api files i\<close>,
  the entry its handlers build from the outcome of its read; so whatever the schedule,
  once \<^verbatim>\<open>Promise.all\<close> resolves the array of loaded entries is the same.
\<close>

definition load_entry :: "repository_api \<Rightarrow> file_item list \<Rightarrow> nat \<Rightarrow> loaded" where
  "load_entry api_client files i =
     (case readFile api_client i (files ! i) of
        Resolved d \<Rightarrow> Loaded (files ! i) d
      | Rejected reason \<Rightarrow> LoadError (if reason = JUndefined then JBool True else reason))"

definition resolved_by :: "(nat \<Rightarrow> 'r) \<Rightarrow> 'r pool \<Rightarrow> bool" where
  "resolved_by v st =
     (\<forall>i<length (promises st). promises st ! i = None \<or> promises st ! i = Some (v i))"

text \<open>
  The entries of the work items whose read succeeded, in the order of the work items.
\<close>

definition successful_entries :: "repository_api \<Rightarrow> file_item list \<Rightarrow> loaded list" where
  "successful_entries api_client files =
     concat (map (\<lambda>i. case readFile api_client i (files ! i) of
                          Resolved d \<Rightarrow> [Loaded (files ! i) d]
                        | Rejected reason \<Rightarrow> [])
                 [0..<length files])"

text \<open>
  The work items that hold a slot or wait for one are exactly those whose promise is
  pending, each once; the slots taken are the reads in flight and the tasks handed to
  \<^verbatim>\<open>nextTick\<close>; and a task only waits while all slots are taken.
\<close>

definition pending_promises :: "'r pool \<Rightarrow> nat set" where
  "pending_promises st = {i. i < length (promises st) \<and> promises st ! i = None}"

definition tracked :: "'r pool \<Rightarrow> nat list" where
  "tracked st = reading st @ ticks st @ waiting (sem st)"

definition sound :: "nat \<Rightarrow> 'r pool \<Rightarrow> bool" where
  "sound n st =
     (length (promises st) \<le> n
      \<and> current (sem st) = int (length (reading st) + length (ticks st))
      \<and> current (sem st) \<le> int (capacity (sem st))
      \<and> capacity (sem st) = MAX_CONCURRENT_DOWNLOADS
      \<and> unhandled st = 0
      \<and> distinct (tracked st)
      \<and> set (tracked st) = pending_promises st
      \<and> (waiting (sem st) = [] \<or> current (sem st) = int (capacity (sem st))))"

definition work_left :: "nat \<Rightarrow> 'r pool \<Rightarrow> nat" where
  "work_left n st =
     4 * (n - length (promises st)) + 3 * length (waiting (sem st)) + 2 * length (ticks st)
     + length (reading st)"

section \<open>Example inputs\<close>

text \<open>
  A backend in open-authoring mode for the origin \<^verbatim>\<open>owner/cms\<close>, before anyone has
  authenticated, and a GitHub that knows the user \<^verbatim>\<open>alice\<close>: \<open>demo_net permission lookup\<close>
  answers the identity request with her login, the permission request with \<open>permission\<close>,
  the fork-creation request with the fork \<^verbatim>\<open>alice/cms\<close>, and every other request (the
  lookup and the probes of \<^verbatim>\<open>alice/cms\<close>) with \<open>lookup\<close>.
\<close>

definition demo_backend :: backend where
  "demo_backend =
     \<lparr>originRepo = ''owner/cms'', repo = JUndefined, openAuthoringEnabled = True,
      useOpenAuthoring = None, apiRoot = ''https://api.github.com'', token = Some [],
      api = None, currentUserPromise = None, userIsOriginMaintainerPromises = None,
      events = [], nfetch = 0\<rparr>"

definition ok_json :: "jsval \<Rightarrow> response outcome" where
  "ok_json v = Resolved \<lparr>resp_status = 200, resp_json = Resolved v\<rparr>"

definition demo_net :: "string \<Rightarrow> response outcome \<Rightarrow> network" where
  "demo_net permission lookup n rq =
     (if req_url rq = ''https://api.github.com/user''
      then ok_json (JObj [(''login'', JStr ''alice'')])
      else if req_url rq = ''https://api.github.com/repos/owner/cms/collaborators/alice/permission''
      then ok_json (JObj [(''permission'', JStr permission)])
      else if req_method rq = POST
      then ok_json (JObj [(''full_name'', JStr ''alice/cms'')])
      else lookup)"

definition fork_of_origin :: "response outcome" where
  "fork_of_origin =
     ok_json (JObj [(''fork'', JBool True),
                    (''parent'', JObj [(''full_name'', JStr ''Owner/CMS'')])])"

definition no_such_repo :: "response outcome" where
  "no_such_repo =
     Resolved \<lparr>resp_status = 404, resp_json = Resolved (JObj [(''message'', JStr ''Not Found'')])\<rparr>"

text \<open>
  A backend that holds the cached identity of \<^verbatim>\<open>alice\<close>, a maintainer, and a network on
  which every token belongs to \<^verbatim>\<open>bob\<close>, who is not.
\<close>

definition cached_backend :: backend where
  "cached_backend =
     demo_backend
       \<lparr>token := Some ''t'', api := Some \<lparr>reset_is_function = True\<rparr>,
        currentUserPromise := Some (Resolved (JObj [(''login'', JStr ''alice'')])),
        userIsOriginMaintainerPromises := Some [(''alice'', Resolved True)]\<rparr>"

definition bob_net :: network where
  "bob_net n rq = ok_json (JObj [(''login'', JStr ''bob''), (''permission'', JStr ''read'')])"

text \<open>
  A network on which the fork becomes reachable at the third request: the first two are
  rejected with a 404.
\<close>

definition slow_fork_net :: network where
  "slow_fork_net n rq =
     (if n < 2 then Rejected (JObj [(''status'', JNum 404)])
      else ok_json (JObj [(''full_name'', JStr ''alice/cms'')]))"

text \<open>
  An API client for the examples: the read of the second work item is rejected with
  \<^verbatim>\<open>null\<close>, the read of the third without a reason, every other read succeeds; there are
  two unpublished branches, of which the second cannot be read.
\<close>

definition demo_api :: repository_api where
  "demo_api =
     \<lparr>readFile = (\<lambda>i f. if i = 1 then Rejected JNull
                          else if i = 2 then Rejected JUndefined
                          else Resolved (''content of '' @ path f)),
      listUnpublishedBranches = Resolved [''cms/posts/a'', ''cms/posts/b''],
      readUnpublishedBranchFile =
        (\<lambda>i k. if i = 0
               then Resolved (Some \<lparr>metaData = \<lparr>collection = ''posts'', entry_path = ''posts/a.md''\<rparr>,
                                     fileData = ''draft'', isModification = False\<rparr>)
               else Rejected (js_Error ''Failed to fetch'')),
      contentKeyFromRef = drop 4,
      slugFromContentKey = (\<lambda>k c. drop (Suc (length c)) k)\<rparr>"

definition demo_file :: "string \<Rightarrow> file_item" where
  "demo_file p = \<lparr>path = p, sha = None\<rparr>"

text \<open>
  The same client, with reads that fail the way failing reads usually do: the read of the
  second work item is rejected without a reason, the read of the third with an Error.
\<close>

definition flaky_api :: repository_api where
  "flaky_api =
     demo_api\<lparr>readFile := (\<lambda>i f. if i = 1 then Rejected JUndefined
                                  else if i = 2 then Rejected (js_Error ''Not Found'')
                                  else Resolved (''content of '' @ path f))\<rparr>"

section \<open>runWithLock: the claims\<close>

lemma occurrences_append: "occurrences e (xs @ ys) = occurrences e xs + occurrences e ys"
  by (simp add: occurrences_def)

lemma occurrences_Cons: "occurrences e (x # xs) = (if x = e then 1 else 0) + occurrences e xs"
  by (simp add: occurrences_def)

lemma occurrences_Nil: "occurrences e [] = 0"
  by (simp add: occurrences_def)

text \<open>
  C4. In every execution of \<^verbatim>\<open>runWithLock\<close>, whatever the lock and the guarded
  function do (the lock obtained or not, \<^verbatim>\<open>acquire()\<close> rejecting, the guarded function
  resolving, throwing or rejecting, \<^verbatim>\<open>release()\<close> itself throwing), \<^verbatim>\<open>release()\<close> is
  called exactly once, and it is the last thing the execution does: after the guarded
  function (when it was called) has settled.
\<close>

theorem runWithLock_releases_once:
  "\<exists>pre. snd (runWithLock l func message tr) = tr @ pre @ [EvRelease]
         \<and> EvRelease \<notin> set pre
         \<and> occurrences EvRelease (snd (runWithLock l func message tr)) = occurrences EvRelease tr + 1"
proof (cases "acquire l")
  case (Rejected e)
  then have "snd (runWithLock l func message tr) = tr @ [EvAcquire] @ [EvRelease]"
    by (simp add: runWithLock_def runWithLock_try_def run_finally_def split: option.splits)
  then show ?thesis
    by (intro exI [of _ "[EvAcquire]"]) (simp add: occurrences_append occurrences_Cons occurrences_Nil)
next
  case (Resolved acquired)
  show ?thesis
  proof (cases acquired)
    case True
    with Resolved have "snd (runWithLock l func message tr) = tr @ [EvAcquire, EvFunc] @ [EvRelease]"
      by (simp add: runWithLock_def runWithLock_try_def run_finally_def split: option.splits)
    then show ?thesis
      by (intro exI [of _ "[EvAcquire, EvFunc]"])
         (simp add: occurrences_append occurrences_Cons occurrences_Nil)
  next
    case False
    with Resolved have
      "snd (runWithLock l func message tr) = tr @ [EvAcquire, EvWarn message, EvFunc] @ [EvRelease]"
      by (simp add: runWithLock_def runWithLock_try_def run_finally_def split: option.splits)
    then show ?thesis
      by (intro exI [of _ "[EvAcquire, EvWarn message, EvFunc]"])
         (simp add: occurrences_append occurrences_Cons occurrences_Nil)
  qed
qed

text \<open>
  C5. When \<^verbatim>\<open>acquire()\<close> reports that the lock was not obtained, the execution is:
  acquire, a warning with the caller's message, the guarded function, release. The
  outcome is the one of the same run with the lock obtained, and it is the guarded
  function's own outcome whenever \<^verbatim>\<open>release()\<close> returns.
\<close>

theorem runWithLock_not_acquired:
  "acquire l = Resolved False \<Longrightarrow>
     snd (runWithLock l func message tr) = tr @ [EvAcquire, EvWarn message, EvFunc, EvRelease]
     \<and> fst (runWithLock l func message tr)
         = fst (runWithLock (l\<lparr>acquire := Resolved True\<rparr>) func message tr)
     \<and> (release l = None \<longrightarrow> fst (runWithLock l func message tr) = func)"
  by (simp add: runWithLock_def runWithLock_try_def run_finally_def split: option.splits)

theorem runWithLock_not_acquired_witness:
  "snd (runWithLock \<lparr>acquire = Resolved False, release = None\<rparr> (Resolved (JStr ''saved''))
          ''Failed to acquire persist entry lock'' [])
     = [EvAcquire, EvWarn ''Failed to acquire persist entry lock'', EvFunc, EvRelease]
   \<and> fst (runWithLock \<lparr>acquire = Resolved False, release = None\<rparr> (Resolved (JStr ''saved''))
          ''Failed to acquire persist entry lock'' [])
     = Resolved (JStr ''saved'')"
proof -
  have h: "acquire \<lparr>acquire = Resolved False, release = None\<rparr> = Resolved False"
    by simp
  have r: "release \<lparr>acquire = Resolved False, release = None\<rparr> = None"
    by simp
  note w = runWithLock_not_acquired [OF h, of "Resolved (JStr ''saved'')"
      "''Failed to acquire persist entry lock''" "[]"]
  from w [THEN conjunct1] have a: "snd (runWithLock \<lparr>acquire = Resolved False, release = None\<rparr>
      (Resolved (JStr ''saved'')) ''Failed to acquire persist entry lock'' [])
     = [EvAcquire, EvWarn ''Failed to acquire persist entry lock'', EvFunc, EvRelease]"
    by simp
  from w [THEN conjunct2, THEN conjunct2] r
  have b: "fst (runWithLock \<lparr>acquire = Resolved False, release = None\<rparr>
      (Resolved (JStr ''saved'')) ''Failed to acquire persist entry lock'' [])
     = Resolved (JStr ''saved'')"
    by (rule mp)
  from a b show ?thesis by (rule conjI)
qed

section \<open>What the fork resolution does to the trace\<close>

lemma extends_refl: "extends s s"
  by (simp add: extends_def)

lemma extends_trans: "extends s s1 \<Longrightarrow> extends s1 s2 \<Longrightarrow> extends s s2"
  by (auto simp: extends_def)

lemma extends_new_events: "extends s s' \<Longrightarrow> list_all benign (new_events s s')"
  by (auto simp: extends_def new_events_def)

lemma benign_occurrences: "list_all benign evs \<Longrightarrow> \<not> benign e \<Longrightarrow> occurrences e evs = 0"
  by (induction evs) (auto simp: occurrences_def)

lemma fetch_GET_extends: "req_method rq = GET \<Longrightarrow> extends s (snd (fetch net rq s))"
  by (simp add: extends_def fetch_def benign_def)

lemma currentUser_extends: "extends s (snd (currentUser net tok s))"
  by (auto simp: currentUser_def Let_def extends_def fetch_def benign_def split: option.splits)

lemma maintainer_lookup_extends: "extends s (snd (maintainer_lookup net u tok s))"
  by (auto simp: maintainer_lookup_def Let_def extends_def fetch_def benign_def
      split: option.splits)

lemma userIsOriginMaintainer_extends: "extends s (snd (userIsOriginMaintainer net ua tok s))"
proof -
  have a: "extends s (snd (currentUser net tok s))" by (rule currentUser_extends)
  show ?thesis
    using a maintainer_lookup_extends [of s net _ tok]
      maintainer_lookup_extends [of "snd (currentUser net tok s)" net _ tok]
    by (auto simp: userIsOriginMaintainer_def Let_def
        split: option.splits prod.splits outcome.splits intro: extends_trans)
qed

lemma forkExists_extends: "extends s (snd (forkExists net tok s))"
proof -
  have a: "extends s (snd (currentUser net tok s))" by (rule currentUser_extends)
  show ?thesis
    using a
    by (auto simp: forkExists_def Let_def fetch_def extends_def benign_def
        split: option.splits prod.splits outcome.splits)
qed

lemma pollUntilForkExists_extends: "extends s (snd (pollUntilForkExists net n r tok s))"
proof (induction n arbitrary: s)
  case 0
  show ?case by (simp add: extends_refl)
next
  case (Suc n)
  let ?s1 = "snd (fetch net (probe_request s r tok) s)"
  let ?s2 = "?s1\<lparr>events := events ?s1 @
                [EvLog ''This 404 was expected and handled appropriately.'',
                 EvTimeout pollDelay]\<rparr>"
  have a: "extends s ?s1" by (rule fetch_GET_extends) (simp add: probe_request_def)
  have b: "extends ?s1 ?s2" by (simp add: extends_def benign_def)
  have c: "extends ?s2 (snd (pollUntilForkExists net n r tok ?s2))" by (rule Suc.IH)
  from a b c have d: "extends s (snd (pollUntilForkExists net n r tok ?s2))"
    by (blast intro: extends_trans)
  show ?case
    using a d by (simp add: fetch_def split: outcome.splits prod.splits)
qed

text \<open>
  From the fork-creation request on: the POST is the first new event, and nothing but
  the polling loop follows it.
\<close>

lemma create_fork_and_poll_events:
  "\<exists>evs. events (snd (create_fork_and_poll net fuel tok s))
           = events s @ EvFetch (fork_request s tok) # evs
         \<and> list_all benign evs"
proof -
  let ?s1 = "snd (fetch net (fork_request s tok) s)"
  have e1: "events ?s1 = events s @ [EvFetch (fork_request s tok)]"
    by (simp add: fetch_def)
  have stop: "\<And>s'. events s' = events ?s1 \<Longrightarrow>
      \<exists>evs. events s' = events s @ EvFetch (fork_request s tok) # evs \<and> list_all benign evs"
    using e1 by simp
  have go: "\<And>s' fn. events s' = events ?s1 \<Longrightarrow>
      \<exists>evs. events (snd (pollUntilForkExists net fuel fn tok s'))
               = events s @ EvFetch (fork_request s tok) # evs \<and> list_all benign evs"
  proof -
    fix s' :: backend and fn
    assume h: "events s' = events ?s1"
    from pollUntilForkExists_extends [of s' net fuel fn tok]
    obtain evs where "events (snd (pollUntilForkExists net fuel fn tok s')) = events s' @ evs"
      and "list_all benign evs"
      by (auto simp: extends_def)
    with h e1 show "\<exists>evs. events (snd (pollUntilForkExists net fuel fn tok s'))
               = events s @ EvFetch (fork_request s tok) # evs \<and> list_all benign evs"
      by simp
  qed
  show ?thesis
    unfolding create_fork_and_poll_def Let_def
    by (auto simp: case_prod_beta intro!: stop go split: outcome.splits)
qed

section \<open>authenticateWithFork: the claims\<close>

text \<open>
  C10. With open authoring not enabled, \<^verbatim>\<open>authenticateWithFork\<close> rejects with its error
  and the backend's state is what it was: no request was issued, nothing was asked, and no
  field was written.
\<close>

theorem authenticateWithFork_disabled:
  "\<not> openAuthoringEnabled s \<Longrightarrow>
     authenticateWithFork net fuel getPermissionToFork tok s
       = (Some (Rejected (js_Error ''Cannot authenticate with fork; Open Authoring is turned off.'')), s)"
  by (simp add: authenticateWithFork_def)

theorem authenticateWithFork_disabled_witness:
  "authenticateWithFork (demo_net ''admin'' fork_of_origin) 3 (Resolved True) ''t''
       (demo_backend\<lparr>openAuthoringEnabled := False\<rparr>)
     = (Some (Rejected (js_Error ''Cannot authenticate with fork; Open Authoring is turned off.'')),
        demo_backend\<lparr>openAuthoringEnabled := False\<rparr>)"
proof -
  have h: "\<not> openAuthoringEnabled (demo_backend\<lparr>openAuthoringEnabled := False\<rparr>)"
    by simp
  show ?thesis
    by (rule authenticateWithFork_disabled [OF h])
qed

text \<open>
  C7. When open authoring is enabled and \<^verbatim>\<open>userIsOriginMaintainer\<close> reports a maintainer,
  \<^verbatim>\<open>authenticateWithFork\<close> resolves, and the state it leaves is the state after that one
  query with \<^verbatim>\<open>repo\<close> set to the origin and \<^verbatim>\<open>useOpenAuthoring\<close> to false: the fork lookup
  and the fork creation did not run (the trace is the one of the maintainer query, which
  holds GET requests only, and the permission callback was not called), whatever the
  network would have answered to them.
\<close>

theorem authenticateWithFork_maintainer:
  assumes "openAuthoringEnabled s"
    and "fst (userIsOriginMaintainer net None tok s) = Resolved True"
  shows "authenticateWithFork net fuel getPermissionToFork tok s
           = (Some (Resolved JUndefined),
              (snd (userIsOriginMaintainer net None tok s))
                \<lparr>repo := JStr (originRepo s), useOpenAuthoring := Some False\<rparr>)
         \<and> list_all benign (new_events s (snd (authenticateWithFork net fuel getPermissionToFork tok s)))
         \<and> occurrences (EvFetch (fork_request s tok))
              (new_events s (snd (authenticateWithFork net fuel getPermissionToFork tok s))) = 0
         \<and> occurrences EvPermission
              (new_events s (snd (authenticateWithFork net fuel getPermissionToFork tok s))) = 0"
proof -
  let ?s1 = "snd (userIsOriginMaintainer net None tok s)"
  have ext: "extends s ?s1" by (rule userIsOriginMaintainer_extends)
  then have o: "originRepo ?s1 = originRepo s" by (simp add: extends_def)
  from assms o have r: "authenticateWithFork net fuel getPermissionToFork tok s
      = (Some (Resolved JUndefined), ?s1\<lparr>repo := JStr (originRepo s), useOpenAuthoring := Some False\<rparr>)"
    by (simp add: authenticateWithFork_def case_prod_beta)
  have b: "list_all benign (new_events s ?s1)"
    using ext by (rule extends_new_events)
  have p1: "\<not> benign (EvFetch (fork_request s tok))"
    by (simp add: benign_def fork_request_def)
  have p2: "\<not> benign EvPermission"
    by (simp add: benign_def)
  show ?thesis
    using r b benign_occurrences [OF b p1] benign_occurrences [OF b p2]
    by (simp add: new_events_def)
qed

theorem authenticateWithFork_maintainer_witness:
  "fst (authenticateWithFork (demo_net ''admin'' fork_of_origin) 3 (Resolved True) ''t'' demo_backend)
     = Some (Resolved JUndefined)
   \<and> repo (snd (authenticateWithFork (demo_net ''admin'' fork_of_origin) 3 (Resolved True) ''t''
               demo_backend)) = JStr ''owner/cms''
   \<and> useOpenAuthoring (snd (authenticateWithFork (demo_net ''admin'' fork_of_origin) 3
               (Resolved True) ''t'' demo_backend)) = Some False"
proof -
  have en: "openAuthoringEnabled demo_backend"
    by (simp add: demo_backend_def)
  have m: "fst (userIsOriginMaintainer (demo_net ''admin'' fork_of_origin) None ''t'' demo_backend)
      = Resolved True"
    by code_simp
  have o: "originRepo demo_backend = ''owner/cms''"
    by (simp add: demo_backend_def)
  from authenticateWithFork_maintainer [OF en m, of 3 "Resolved True", THEN conjunct1] o
  show ?thesis by simp
qed

text \<open>
  C1, as the claim states it, fails. \<^verbatim>\<open>alice\<close> is not a maintainer (her permission is
  \<^verbatim>\<open>read\<close>) and \<^verbatim>\<open>forkExists\<close> returns \<^verbatim>\<open>true\<close> (her repository \<^verbatim>\<open>alice/cms\<close> is a fork whose
  parent is the origin); \<^verbatim>\<open>authenticateWithFork\<close> resolves, and the POST to the forks
  endpoint is in its trace, once.
\<close>

theorem authenticateWithFork_existing_fork_counterexample:
  "fst (userIsOriginMaintainer (demo_net ''read'' fork_of_origin) None ''t'' demo_backend)
     = Resolved False
   \<and> fst (forkExists (demo_net ''read'' fork_of_origin) ''t''
            (snd (userIsOriginMaintainer (demo_net ''read'' fork_of_origin) None ''t'' demo_backend)))
     = JBool True
   \<and> fst (authenticateWithFork (demo_net ''read'' fork_of_origin) 3 (Resolved True) ''t'' demo_backend)
     = Some (Resolved JUndefined)
   \<and> occurrences (EvFetch (fork_request demo_backend ''t''))
        (events (snd (authenticateWithFork (demo_net ''read'' fork_of_origin) 3 (Resolved True) ''t''
                        demo_backend))) = 1"
  by code_simp

lemma authenticateWithFork_contributor_trace:
  assumes "openAuthoringEnabled s"
    and "fst (userIsOriginMaintainer net None tok s) = Resolved False"
  shows "\<exists>before after.
           list_all benign before \<and> list_all benign after
           \<and> new_events s (snd (authenticateWithFork net fuel getPermissionToFork tok s))
               = contributor_trace
                   (truthy (fst (forkExists net tok (snd (userIsOriginMaintainer net None tok s)))))
                   (resolved getPermissionToFork) (fork_request s tok) before after"
proof -
  let ?s1 = "snd (userIsOriginMaintainer net None tok s)"
  let ?fe = "fst (forkExists net tok ?s1)"
  let ?s2 = "snd (forkExists net tok ?s1)"
  let ?s3 = "?s2\<lparr>events := events ?s2 @ [EvPermission]\<rparr>"
  have e1: "extends s ?s1" by (rule userIsOriginMaintainer_extends)
  have e2: "extends ?s1 ?s2" by (rule forkExists_extends)
  from e1 e2 have e12: "extends s ?s2" by (rule extends_trans)
  then obtain before where b: "events ?s2 = events s @ before" and bb: "list_all benign before"
    by (auto simp: extends_def)
  from e12 have rq2: "fork_request ?s2 tok = fork_request s tok"
    by (simp add: extends_def fork_request_def)
  have rq3: "fork_request ?s3 tok = fork_request s tok"
    using rq2 by (simp add: fork_request_def)
  show ?thesis
  proof (cases "truthy ?fe")
    case True
    with assms have r: "authenticateWithFork net fuel getPermissionToFork tok s
        = create_fork_and_poll net fuel tok ?s2"
      by (simp add: authenticateWithFork_def case_prod_beta)
    from create_fork_and_poll_events [of net fuel tok ?s2]
    obtain after where "events (snd (create_fork_and_poll net fuel tok ?s2))
        = events ?s2 @ EvFetch (fork_request ?s2 tok) # after" and aa: "list_all benign after"
      by blast
    with b rq2 r True have "new_events s (snd (authenticateWithFork net fuel getPermissionToFork tok s))
        = contributor_trace (truthy ?fe) (resolved getPermissionToFork) (fork_request s tok) before after"
      by (simp add: new_events_def contributor_trace_def)
    with bb aa show ?thesis by blast
  next
    case False
    show ?thesis
    proof (cases getPermissionToFork)
      case (Rejected e)
      with False assms have r: "authenticateWithFork net fuel getPermissionToFork tok s
          = (Some (Rejected e), ?s3)"
        by (simp add: authenticateWithFork_def case_prod_beta Let_def)
      with b False Rejected
      have "new_events s (snd (authenticateWithFork net fuel getPermissionToFork tok s))
          = contributor_trace (truthy ?fe) (resolved getPermissionToFork) (fork_request s tok) before []"
        by (simp add: new_events_def contributor_trace_def resolved_def)
      moreover have "list_all benign ([] :: event list)" by simp
      ultimately show ?thesis using bb by blast
    next
      case (Resolved granted)
      with False assms have r: "authenticateWithFork net fuel getPermissionToFork tok s
          = create_fork_and_poll net fuel tok ?s3"
        by (simp add: authenticateWithFork_def case_prod_beta Let_def)
      from create_fork_and_poll_events [of net fuel tok ?s3]
      obtain after where "events (snd (create_fork_and_poll net fuel tok ?s3))
          = events ?s3 @ EvFetch (fork_request ?s3 tok) # after" and aa: "list_all benign after"
        by blast
      with b rq3 r False Resolved
      have "new_events s (snd (authenticateWithFork net fuel getPermissionToFork tok s))
          = contributor_trace (truthy ?fe) (resolved getPermissionToFork) (fork_request s tok) before after"
        by (simp add: new_events_def contributor_trace_def resolved_def)
      with bb aa show ?thesis by blast
    qed
  qed
qed

lemma contributor_trace_counts:
  assumes "list_all benign before" and "list_all benign after" and "req_method rq = POST"
  shows "occurrences (EvFetch rq) (contributor_trace fork_found permitted rq before after)
           = (if fork_found \<or> permitted then 1 else 0)"
    and "occurrences EvPermission (contributor_trace fork_found permitted rq before after)
           = (if fork_found then 0 else 1)"
proof -
  have p1: "\<not> benign (EvFetch rq)" using assms(3) by (simp add: benign_def)
  have p2: "\<not> benign EvPermission" by (simp add: benign_def)
  note z = benign_occurrences [OF assms(1) p1] benign_occurrences [OF assms(2) p1]
    benign_occurrences [OF assms(1) p2] benign_occurrences [OF assms(2) p2]
  show "occurrences (EvFetch rq) (contributor_trace fork_found permitted rq before after)
           = (if fork_found \<or> permitted then 1 else 0)"
    using z by (simp add: contributor_trace_def occurrences_append occurrences_Cons occurrences_Nil)
  show "occurrences EvPermission (contributor_trace fork_found permitted rq before after)
           = (if fork_found then 0 else 1)"
    using z by (simp add: contributor_trace_def occurrences_append occurrences_Cons occurrences_Nil)
qed

text \<open>
  C1, amended. For an identity that is not a maintainer, with open authoring enabled:
  what depends on the fork lookup is the call of the permission callback, not the
  fork-creation request. The new part of the trace is the identity queries and the fork
  lookup (GET requests only), then \<^verbatim>\<open>getPermissionToFork\<close> exactly when \<^verbatim>\<open>forkExists\<close>
  returned a falsy value, then the POST to the forks endpoint, then the polling (GET
  requests, console output and timers only). So the POST is issued exactly once whether
  or not the fork exists; only when no fork exists and the permission callback rejects is
  it not issued at all.
\<close>

theorem authenticateWithFork_contributor:
  assumes "openAuthoringEnabled s"
    and "fst (userIsOriginMaintainer net None tok s) = Resolved False"
  shows "occurrences (EvFetch (fork_request s tok))
           (new_events s (snd (authenticateWithFork net fuel getPermissionToFork tok s)))
         = (if truthy (fst (forkExists net tok (snd (userIsOriginMaintainer net None tok s))))
               \<or> resolved getPermissionToFork then 1 else 0)
       \<and> occurrences EvPermission
           (new_events s (snd (authenticateWithFork net fuel getPermissionToFork tok s)))
         = (if truthy (fst (forkExists net tok (snd (userIsOriginMaintainer net None tok s))))
            then 0 else 1)
       \<and> (\<exists>before after.
           list_all benign before \<and> list_all benign after
           \<and> new_events s (snd (authenticateWithFork net fuel getPermissionToFork tok s))
               = contributor_trace
                   (truthy (fst (forkExists net tok (snd (userIsOriginMaintainer net None tok s)))))
                   (resolved getPermissionToFork) (fork_request s tok) before after)"
proof -
  from authenticateWithFork_contributor_trace [OF assms, of fuel getPermissionToFork]
  obtain before after where b: "list_all benign before" and a: "list_all benign after"
    and t: "new_events s (snd (authenticateWithFork net fuel getPermissionToFork tok s))
               = contributor_trace
                   (truthy (fst (forkExists net tok (snd (userIsOriginMaintainer net None tok s)))))
                   (resolved getPermissionToFork) (fork_request s tok) before after"
    by blast
  have m: "req_method (fork_request s tok) = POST"
    by (simp add: fork_request_def)
  from contributor_trace_counts [OF b a m] t b a show ?thesis
    by (simp only:) blast
qed

theorem authenticateWithFork_contributor_witness:
  "occurrences (EvFetch (fork_request demo_backend ''t''))
     (new_events demo_backend
        (snd (authenticateWithFork (demo_net ''read'' no_such_repo) 3 (Resolved True) ''t''
                demo_backend))) = 1
   \<and> occurrences EvPermission
     (new_events demo_backend
        (snd (authenticateWithFork (demo_net ''read'' no_such_repo) 3 (Resolved True) ''t''
                demo_backend))) = 1"
proof -
  have en: "openAuthoringEnabled demo_backend"
    by (simp add: demo_backend_def)
  have m: "fst (userIsOriginMaintainer (demo_net ''read'' no_such_repo) None ''t'' demo_backend)
      = Resolved False"
    by code_simp
  have fe: "\<not> truthy (fst (forkExists (demo_net ''read'' no_such_repo) ''t''
      (snd (userIsOriginMaintainer (demo_net ''read'' no_such_repo) None ''t'' demo_backend))))"
    by code_simp
  note w = authenticateWithFork_contributor [OF en m, of 3 "Resolved True"]
  from w [THEN conjunct1] w [THEN conjunct2, THEN conjunct1] fe
  show ?thesis by (simp add: resolved_def)
qed

section \<open>logout: the claim\<close>

text \<open>
  All that \<^verbatim>\<open>logout\<close> does: the token is set to \<^verbatim>\<open>null\<close> and, when the backend has an API
  client with a \<^verbatim>\<open>reset\<close> function, that function is called, once.
\<close>

lemma logout_effect:
  "logout s
     = s\<lparr>token := None,
         events := events s @ (case api s of
                                 None \<Rightarrow> []
                               | Some a \<Rightarrow> if reset_is_function a then [EvApiReset] else [])\<rparr>"
  by (simp add: logout_def Let_def split: option.splits)

lemma logout_example:
  "events (logout cached_backend) = [EvApiReset] \<and> token (logout cached_backend) = None
   \<and> events (logout demo_backend) = []"
  by (simp add: logout_def cached_backend_def demo_backend_def)

text \<open>
  C9, as the claim states it, fails. The backend holds the cached identity of \<^verbatim>\<open>alice\<close>;
  after \<^verbatim>\<open>logout\<close>, on a network where the token now presented belongs to \<^verbatim>\<open>bob\<close>, the
  identity query answers with the cached \<^verbatim>\<open>alice\<close> and issues no request, and the maintainer
  query answers with her cached permission. With the cache cleared the same query would
  have answered \<^verbatim>\<open>bob\<close>.
\<close>

theorem logout_cached_identity_counterexample:
  "currentUser bob_net ''t2'' (logout cached_backend)
     = (Resolved (JObj [(''login'', JStr ''alice'')]), logout cached_backend)
   \<and> userIsOriginMaintainer bob_net None ''t2'' (logout cached_backend)
     = (Resolved True, logout cached_backend)
   \<and> fst (currentUser bob_net ''t2'' ((logout cached_backend)\<lparr>currentUserPromise := None\<rparr>))
     = Resolved (JObj [(''login'', JStr ''bob''), (''permission'', JStr ''read'')])"
  by (simp add: currentUser_def userIsOriginMaintainer_def maintainer_lookup_def logout_def
      cached_backend_def demo_backend_def bob_net_def ok_json_def fetch_def then_json_def Let_def)

text \<open>
  C9, amended. \<^verbatim>\<open>logout\<close> sets the token to \<^verbatim>\<open>null\<close> and calls the API client's \<^verbatim>\<open>reset\<close>
  when it has one; it does not touch the memoized current-user promise or the memoized
  maintainer promises. An identity query after \<^verbatim>\<open>logout\<close> therefore returns the cached
  result, and issues no request.
\<close>

theorem logout_keeps_identity_cache:
  "token (logout s) = None
   \<and> currentUserPromise (logout s) = currentUserPromise s
   \<and> userIsOriginMaintainerPromises (logout s) = userIsOriginMaintainerPromises s
   \<and> (currentUserPromise s = Some p \<longrightarrow> currentUser net tok (logout s) = (p, logout s))
   \<and> (userIsOriginMaintainerPromises s = Some cache \<and> map_of cache u = Some q \<and> u \<noteq> []
        \<longrightarrow> userIsOriginMaintainer net (Some u) tok (logout s) = (q, logout s))"
  by (auto simp: logout_def Let_def currentUser_def userIsOriginMaintainer_def
      maintainer_lookup_def split: option.splits)

theorem logout_keeps_identity_cache_witness:
  "currentUser bob_net ''t2'' (logout cached_backend)
     = (Resolved (JObj [(''login'', JStr ''alice'')]), logout cached_backend)
   \<and> userIsOriginMaintainer bob_net (Some ''alice'') ''t2'' (logout cached_backend)
     = (Resolved True, logout cached_backend)"
proof -
  have c: "currentUserPromise cached_backend = Some (Resolved (JObj [(''login'', JStr ''alice'')]))"
    by (simp add: cached_backend_def)
  have m: "userIsOriginMaintainerPromises cached_backend = Some [(''alice'', Resolved True)]
      \<and> map_of [(''alice'', Resolved True)] ''alice'' = Some (Resolved True) \<and> ''alice'' \<noteq> []"
    by (simp add: cached_backend_def)
  note w = logout_keeps_identity_cache [of cached_backend
      "Resolved (JObj [(''login'', JStr ''alice'')])" bob_net "''t2''"
      "[(''alice'', Resolved True)]" "''alice''" "Resolved True"]
  from w [THEN conjunct2, THEN conjunct2, THEN conjunct2, THEN conjunct1] c
  have a: "currentUser bob_net ''t2'' (logout cached_backend)
     = (Resolved (JObj [(''login'', JStr ''alice'')]), logout cached_backend)"
    by (rule mp)
  from w [THEN conjunct2, THEN conjunct2, THEN conjunct2, THEN conjunct2] m
  have b: "userIsOriginMaintainer bob_net (Some ''alice'') ''t2'' (logout cached_backend)
     = (Resolved True, logout cached_backend)"
    by (rule mp)
  from a b show ?thesis by (rule conjI)
qed

section \<open>pollUntilForkExists: the claim\<close>

lemma after_rounds_0: "after_rounds 0 rq s = s"
  by (simp add: after_rounds_def)

lemma pollUntilForkExists_404_step:
  assumes "rejects_404 net (probe_request s r tok) (nfetch s)"
  shows "pollUntilForkExists net (Suc n) r tok s
           = pollUntilForkExists net n r tok (after_rounds (Suc 0) (probe_request s r tok) s)"
proof (cases "net (nfetch s) (probe_request s r tok)")
  case (Resolved res)
  with assms show ?thesis by (simp add: rejects_404_def)
next
  case (Rejected err)
  with assms have "is_404 err" by (simp add: rejects_404_def)
  with Rejected show ?thesis
    by (simp add: fetch_def after_rounds_def poll_round_def pollDelay_def)
qed

lemma after_rounds_Suc:
  "after_rounds k rq (after_rounds (Suc 0) rq s) = after_rounds (Suc k) rq s"
  by (simp add: after_rounds_def)

lemma pollUntilForkExists_skip:
  "\<forall>i<k. rejects_404 net (probe_request s r tok) (nfetch s + i) \<Longrightarrow>
     pollUntilForkExists net (k + j) r tok s
       = pollUntilForkExists net j r tok (after_rounds k (probe_request s r tok) s)"
proof (induction k arbitrary: s)
  case 0
  show ?case by (simp add: after_rounds_0)
next
  case (Suc k)
  let ?rq = "probe_request s r tok"
  let ?s1 = "after_rounds (Suc 0) ?rq s"
  have rq: "probe_request ?s1 r tok = ?rq"
    by (simp add: probe_request_def after_rounds_def)
  have n1: "nfetch ?s1 = Suc (nfetch s)"
    by (simp add: after_rounds_def)
  from Suc.prems have first: "rejects_404 net ?rq (nfetch s)"
    by (metis add.right_neutral zero_less_Suc)
  have rest: "\<forall>i<k. rejects_404 net (probe_request ?s1 r tok) (nfetch ?s1 + i)"
  proof (intro allI impI)
    fix i assume "i < k"
    then have "Suc i < Suc k" by simp
    with Suc.prems have "rejects_404 net ?rq (nfetch s + Suc i)" by blast
    then show "rejects_404 net (probe_request ?s1 r tok) (nfetch ?s1 + i)"
      by (simp add: rq n1)
  qed
  have "pollUntilForkExists net (Suc k + j) r tok s
      = pollUntilForkExists net (k + j) r tok ?s1"
    using pollUntilForkExists_404_step [OF first] by simp
  also have "\<dots> = pollUntilForkExists net j r tok (after_rounds k (probe_request ?s1 r tok) ?s1)"
    by (rule Suc.IH [OF rest])
  also have "\<dots> = pollUntilForkExists net j r tok (after_rounds (Suc k) ?rq s)"
    by (simp only: rq after_rounds_Suc)
  finally show ?case .
qed

text \<open>
  \<^verbatim>\<open>authenticateWithFork\<close> returns the promise of the loop: once the fork-creation request
  has given the fork's name, what the loop settles with is what the authentication settles
  with.
\<close>

lemma create_fork_and_poll_is_poll:
  assumes "then_json (net (nfetch s) (fork_request s tok)) = Resolved fork"
    and "get_prop fork ''full_name'' = Resolved full_name"
  shows "create_fork_and_poll net fuel tok s
           = pollUntilForkExists net fuel full_name tok
               ((snd (fetch net (fork_request s tok) s))
                  \<lparr>useOpenAuthoring := Some True, repo := full_name\<rparr>)"
  using assms by (simp add: create_fork_and_poll_def fetch_def)

text \<open>
  What the handler's test \<^verbatim>\<open>err && err.status === 404\<close> accepts: an object whose \<^verbatim>\<open>status\<close>
  is the number 404, and nothing else. Not another status, not the string \<^verbatim>\<open>'404'\<close>, not a
  missing reason, and not the TypeError with which \<^verbatim>\<open>fetch\<close> rejects when the network is
  down, which has no status.
\<close>

lemma is_404_examples:
  "is_404 (JObj [(''status'', JNum 404)])
   \<and> is_404 (JObj [(''message'', JStr ''Not Found''), (''status'', JNum 404)])
   \<and> \<not> is_404 (JObj [(''status'', JNum 500)])
   \<and> \<not> is_404 (JObj [(''status'', JStr ''404'')])
   \<and> \<not> is_404 (JObj [(''message'', JStr ''Not Found'')])
   \<and> \<not> is_404 (JNum 404)
   \<and> \<not> is_404 JUndefined
   \<and> \<not> is_404 JNull
   \<and> \<not> is_404 js_TypeError
   \<and> \<not> is_404 (js_Error ''Failed to fetch'')"
  by (simp add: is_404_def js_TypeError_def js_Error_def)

text \<open>The probe is a GET of the repository's API endpoint, with the token.\<close>

lemma probe_request_example:
  "probe_request demo_backend (JStr ''alice/cms'') ''t''
     = \<lparr>req_method = GET, req_url = ''https://api.github.com/repos/alice/cms'',
        req_authorization = ''token t''\<rparr>"
  by (simp add: probe_request_def demo_backend_def auth_header_def)

text \<open>
  The rounds of the loop. Let the promises of the first \<open>k\<close> probes be rejected with a
  404 (a truthy reason whose \<^verbatim>\<open>status\<close> is 404). Then the loop went through \<open>k\<close> rounds of
  probe, console message and 250 ms timer, and is still running when the fuel is \<open>k\<close>.
  With more fuel the next probe decides: when its promise resolves the call resolves; when
  it is rejected with anything that is not a 404 (also a falsy reason, or one without a
  status) the call rejects with that very reason. In both cases nothing follows the
  deciding probe.
\<close>

lemma pollUntilForkExists_rounds:
  assumes "\<forall>i<k. rejects_404 net (probe_request s r tok) (nfetch s + i)"
  shows "pollUntilForkExists net k r tok s = (None, after_rounds k (probe_request s r tok) s)
       \<and> (\<forall>res. net (nfetch s + k) (probe_request s r tok) = Resolved res \<longrightarrow>
            pollUntilForkExists net (Suc (k + j)) r tok s
              = (Some (Resolved JUndefined),
                 after_probe (probe_request s r tok) (after_rounds k (probe_request s r tok) s)))
       \<and> (\<forall>err. net (nfetch s + k) (probe_request s r tok) = Rejected err \<and> \<not> is_404 err \<longrightarrow>
            pollUntilForkExists net (Suc (k + j)) r tok s
              = (Some (Rejected err),
                 after_probe (probe_request s r tok) (after_rounds k (probe_request s r tok) s)))"
proof -
  let ?rq = "probe_request s r tok"
  let ?sk = "after_rounds k ?rq s"
  have rq: "probe_request ?sk r tok = ?rq"
    by (simp add: probe_request_def after_rounds_def)
  have nk: "nfetch ?sk = nfetch s + k"
    by (simp add: after_rounds_def)
  have a: "pollUntilForkExists net k r tok s = (None, ?sk)"
    using pollUntilForkExists_skip [OF assms, of 0] by simp
  have more: "pollUntilForkExists net (Suc (k + j)) r tok s
      = pollUntilForkExists net (Suc j) r tok ?sk"
    using pollUntilForkExists_skip [OF assms, of "Suc j"] by simp
  have b: "pollUntilForkExists net (Suc (k + j)) r tok s
              = (Some (Resolved JUndefined), after_probe ?rq ?sk)"
    if "net (nfetch s + k) ?rq = Resolved res" for res
  proof -
    from that have "pollUntilForkExists net (Suc j) r tok ?sk
        = (Some (Resolved JUndefined), after_probe ?rq ?sk)"
      by (simp add: rq nk fetch_def after_probe_def)
    with more show ?thesis by (rule trans)
  qed
  have c: "pollUntilForkExists net (Suc (k + j)) r tok s
              = (Some (Rejected err), after_probe ?rq ?sk)"
    if "net (nfetch s + k) ?rq = Rejected err" and "\<not> is_404 err" for err
  proof -
    from that have "pollUntilForkExists net (Suc j) r tok ?sk
        = (Some (Rejected err), after_probe ?rq ?sk)"
      by (simp add: rq nk fetch_def after_probe_def)
    with more show ?thesis by (rule trans)
  qed
  from a b c show ?thesis by blast
qed

lemma pollUntilForkExists_rounds_example:
  "pollUntilForkExists slow_fork_net 5 (JStr ''alice/cms'') ''t'' demo_backend
     = (Some (Resolved JUndefined),
        after_probe (probe_request demo_backend (JStr ''alice/cms'') ''t'')
          (after_rounds 2 (probe_request demo_backend (JStr ''alice/cms'') ''t'') demo_backend))
   \<and> pollUntilForkExists slow_fork_net 2 (JStr ''alice/cms'') ''t'' demo_backend
     = (None, after_rounds 2 (probe_request demo_backend (JStr ''alice/cms'') ''t'') demo_backend)"
proof -
  let ?rq = "probe_request demo_backend (JStr ''alice/cms'') ''t''"
  have h: "\<forall>i<2. rejects_404 slow_fork_net ?rq (nfetch demo_backend + i)"
    by (simp add: rejects_404_def slow_fork_net_def is_404_def demo_backend_def)
  have r: "slow_fork_net (nfetch demo_backend + 2) ?rq
      = Resolved \<lparr>resp_status = 200, resp_json = Resolved (JObj [(''full_name'', JStr ''alice/cms'')])\<rparr>"
    by (simp add: slow_fork_net_def ok_json_def demo_backend_def)
  note w = pollUntilForkExists_rounds [OF h, of 2]
  from w [THEN conjunct2, THEN conjunct1] r
  have a: "pollUntilForkExists slow_fork_net (Suc (2 + 2)) (JStr ''alice/cms'') ''t'' demo_backend
     = (Some (Resolved JUndefined), after_probe ?rq (after_rounds 2 ?rq demo_backend))"
    by blast
  have five: "Suc (2 + 2) = (5::nat)" by simp
  from a have a': "pollUntilForkExists slow_fork_net 5 (JStr ''alice/cms'') ''t'' demo_backend
     = (Some (Resolved JUndefined), after_probe ?rq (after_rounds 2 ?rq demo_backend))"
    by (simp only: five)
  from a' w [THEN conjunct1] show ?thesis by (rule conjI)
qed

text \<open>
  A failure that is not a 404 ends the loop at the probe that meets it, and the call
  rejects with it: so when the network is down (\<^verbatim>\<open>fetch\<close> rejects with a TypeError), and so
  when the reason is an object with status 500.
\<close>

lemma pollUntilForkExists_other_failure:
  "pollUntilForkExists (\<lambda>n rq. Rejected js_TypeError) (Suc n) r tok s
     = (Some (Rejected js_TypeError),
        s\<lparr>events := events s @ [EvFetch (probe_request s r tok)], nfetch := Suc (nfetch s)\<rparr>)
   \<and> pollUntilForkExists (\<lambda>n rq. Rejected (JObj [(''status'', JNum 500)])) (Suc n) r tok s
     = (Some (Rejected (JObj [(''status'', JNum 500)])),
        s\<lparr>events := events s @ [EvFetch (probe_request s r tok)], nfetch := Suc (nfetch s)\<rparr>)"
  by (simp add: fetch_def is_404_def js_TypeError_def)

text \<open>
  C2. The claim fails at the answer the loop is there for: the fork is not ready yet and
  the server answers the probe with the HTTP status 404. \<^verbatim>\<open>fetch\<close> resolves with that
  response, \<^verbatim>\<open>.then(() => true)\<close> makes the probe a success without looking at the status,
  and the \<^verbatim>\<open>catch\<close> handler with its test for 404 is not run. Whatever the backend, the
  fork's name, the token, the fuel and the rest of the network: the call resolves at this
  first probe, and all it has done is the one request; there is no console message, no
  250 ms timer and no second probe.
\<close>

theorem pollUntilForkExists_http_404_ends_loop:
  "pollUntilForkExists
       (net(nfetch s := (\<lambda>rq. Resolved (res\<lparr>resp_status := 404\<rparr>)))) (Suc n) r tok s
     = (Some (Resolved JUndefined),
        s\<lparr>events := events s @ [EvFetch (probe_request s r tok)], nfetch := Suc (nfetch s)\<rparr>)"
  by (simp add: fetch_def)

section \<open>The fetcher never holds more reads than the semaphore has slots\<close>

lemma run_invariant:
  assumes step: "\<And>a st st'. P st \<Longrightarrow> fire a st = Some st' \<Longrightarrow> P st'"
    and "P st" and "run fire as st = Some st'"
  shows "P st'"
  using assms(2,3)
proof (induction as arbitrary: st)
  case Nil
  then show ?case by simp
next
  case (Cons a as)
  then show ?case
    by (auto split: option.splits dest: step)
qed

lemma pool_init_bounded: "bounded pool_init"
  by (simp add: bounded_def pool_init_def)

lemma take_bounded:
  assumes "bounded st"
  shows "bounded (take i (st\<lparr>promises := ps\<rparr>))"
  using assms
  by (auto simp: bounded_def take_def sem_take_def split: if_splits)

lemma push_task_bounded: "bounded st \<Longrightarrow> push_task n st = Some st' \<Longrightarrow> bounded st'"
  by (auto simp: push_task_def Let_def take_bounded split: if_splits)

lemma tick_task_bounded: "bounded st \<Longrightarrow> tick_task st = Some st' \<Longrightarrow> bounded st'"
  by (auto simp: tick_task_def bounded_def split: list.splits)

lemma settle_holding:
  assumes "bounded st" and "i \<in> set (reading st)"
  shows "holding (st\<lparr>reading := removeAll i (reading st)\<rparr>)"
proof -
  from assms(2) have "length (removeAll i (reading st)) < length (reading st)"
    by (rule length_removeAll_less)
  with assms(1) show ?thesis
    by (simp add: bounded_def holding_def)
qed

lemma resolve_promise_holding: "holding st \<Longrightarrow> holding (resolve_promise i v st)"
  by (simp add: holding_def resolve_promise_def)

lemma resolve_promise_bounded: "bounded st \<Longrightarrow> bounded (resolve_promise i v st)"
  by (simp add: bounded_def resolve_promise_def)

lemma leave_holding:
  assumes "holding st"
  shows "\<not> snd (leave st) \<and> bounded (fst (leave st))
         \<and> promises (fst (leave st)) = promises st \<and> console (fst (leave st)) = console st"
  using assms
  by (auto simp: holding_def bounded_def leave_def sem_leave_def Let_def
      split: list.splits if_splits)

lemma bounded_console: "bounded (st\<lparr>console := c\<rparr>) = bounded st"
  by (simp add: bounded_def)

lemma fetchFiles_catch_holding:
  assumes "holding st"
  shows "bounded (fetchFiles_catch f reason i st)"
proof -
  from leave_holding [OF assms] have t: "\<not> snd (leave st)" and b: "bounded (fst (leave st))"
    by simp_all
  from t b show ?thesis
    by (simp add: fetchFiles_catch_def Let_def case_prod_beta resolve_promise_bounded
        bounded_console)
qed

lemma fetchFiles_then_holding:
  assumes "holding st"
  shows "bounded (fetchFiles_then f d i st)"
proof -
  from assms have "holding (resolve_promise i (Loaded f d) st)"
    by (rule resolve_promise_holding)
  from leave_holding [OF this] show ?thesis
    by (simp add: fetchFiles_then_def Let_def case_prod_beta)
qed

lemma fetchFiles_fire_bounded:
  assumes "bounded st" and "fetchFiles_fire api_client files a st = Some st'"
  shows "bounded st'"
proof (cases a)
  case Push
  with assms show ?thesis by (simp add: fetchFiles_fire_def push_task_bounded)
next
  case Tick
  with assms show ?thesis by (simp add: fetchFiles_fire_def tick_task_bounded)
next
  case (Settle i)
  with assms(2) have i: "i \<in> set (reading st)"
    by (simp add: fetchFiles_fire_def split: if_splits)
  from settle_holding [OF assms(1) i]
  have h: "holding (st\<lparr>reading := removeAll i (reading st)\<rparr>)" .
  from Settle assms(2) i show ?thesis
    using fetchFiles_then_holding [OF h] fetchFiles_catch_holding [OF h]
    by (auto simp: fetchFiles_fire_def Let_def split: if_splits outcome.splits)
qed

lemma unpublished_catch_holding:
  assumes "holding st"
  shows "bounded (unpublished_catch i st)"
proof -
  from leave_holding [OF assms] show ?thesis
    by (simp add: unpublished_catch_def Let_def case_prod_beta resolve_promise_bounded)
qed

lemma unpublished_then_holding:
  assumes "holding st"
  shows "bounded (unpublished_then api_client k d i st)"
proof -
  have "holding (resolve_promise i v st)" for v
    using assms by (rule resolve_promise_holding)
  from leave_holding [OF this] show ?thesis
    by (simp add: unpublished_then_def Let_def case_prod_beta)
qed

lemma unpublished_fire_bounded:
  assumes "bounded st" and "unpublished_fire api_client branches a st = Some st'"
  shows "bounded st'"
proof (cases a)
  case Push
  with assms show ?thesis by (simp add: unpublished_fire_def push_task_bounded)
next
  case Tick
  with assms show ?thesis by (simp add: unpublished_fire_def tick_task_bounded)
next
  case (Settle i)
  with assms(2) have i: "i \<in> set (reading st)"
    by (simp add: unpublished_fire_def split: if_splits)
  from settle_holding [OF assms(1) i]
  have h: "holding (st\<lparr>reading := removeAll i (reading st)\<rparr>)" .
  from Settle assms(2) i show ?thesis
    using unpublished_then_holding [OF h] unpublished_catch_holding [OF h]
    by (auto simp: unpublished_fire_def Let_def split: if_splits outcome.splits)
qed

lemma bounded_reading:
  "bounded st \<Longrightarrow> length (reading st) \<le> MAX_CONCURRENT_DOWNLOADS \<and> unhandled st = 0"
  by (simp add: bounded_def)

text \<open>
  C6. Whatever the work items, the API client and the schedule: after every schedule that
  can run (so at every point of every execution), in \<^verbatim>\<open>fetchFiles\<close> and in
  \<^verbatim>\<open>unpublishedEntries\<close> alike, the reads that have been started and have not settled are
  at most \<^verbatim>\<open>MAX_CONCURRENT_DOWNLOADS\<close>, which is 10; and \<^verbatim>\<open>sem.leave()\<close> never threw.
\<close>

theorem fetcher_at_most_10_unsettled:
  "MAX_CONCURRENT_DOWNLOADS = 10
   \<and> (\<forall>st. run (fetchFiles_fire api_client files) schedule pool_init = Some st \<longrightarrow>
          length (reading st) \<le> MAX_CONCURRENT_DOWNLOADS \<and> unhandled st = 0)
   \<and> (\<forall>st. run (unpublished_fire api_client branches) schedule pool_init = Some st \<longrightarrow>
          length (reading st) \<le> MAX_CONCURRENT_DOWNLOADS \<and> unhandled st = 0)"
proof -
  have f: "bounded st"
    if "run (fetchFiles_fire api_client files) schedule pool_init = Some st" for st
    using fetchFiles_fire_bounded pool_init_bounded that
    by (rule run_invariant [where P = bounded])
  have u: "bounded st"
    if "run (unpublished_fire api_client branches) schedule pool_init = Some st" for st
    using unpublished_fire_bounded pool_init_bounded that
    by (rule run_invariant [where P = bounded])
  have k: "MAX_CONCURRENT_DOWNLOADS = 10"
    by (simp add: MAX_CONCURRENT_DOWNLOADS_def)
  from k f u show ?thesis
    by (blast dest: bounded_reading)
qed

theorem fetcher_at_most_10_unsettled_witness:
  "\<exists>st. run (fetchFiles_fire demo_api (replicate 12 (demo_file ''a.md''))) (replicate 12 Push)
           pool_init = Some st
        \<and> length (reading st) = 10 \<and> waiting (sem st) = [10, 11]
        \<and> length (reading st) \<le> MAX_CONCURRENT_DOWNLOADS"
proof -
  let ?r = "run (fetchFiles_fire demo_api (replicate 12 (demo_file ''a.md''))) (replicate 12 Push)
           pool_init"
  have e: "?r \<noteq> None \<and> length (reading (the ?r)) = 10 \<and> waiting (sem (the ?r)) = [10, 11]"
    by code_simp
  then obtain st where st: "?r = Some st" by blast
  with e have a: "length (reading st) = 10 \<and> waiting (sem st) = [10, 11]" by simp
  from fetcher_at_most_10_unsettled [of demo_api "replicate 12 (demo_file ''a.md'')"
      "replicate 12 Push"] st
  have "length (reading st) \<le> MAX_CONCURRENT_DOWNLOADS" by blast
  with st a show ?thesis by blast
qed

section \<open>What fetchFiles resolves with\<close>

lemma leave_promises: "promises (fst (leave st)) = promises st"
  by (simp add: leave_def sem_leave_def Let_def split: list.splits)

lemma resolve_promise_twice:
  "promises (resolve_promise i w (st'\<lparr>console := c\<rparr>)) = promises st'"
  if "promises st' = promises (resolve_promise i v st)"
  using that by (auto simp: resolve_promise_def split: if_splits)

lemma resolved_by_resolve:
  "resolved_by v st \<Longrightarrow> resolved_by v (resolve_promise i (v i) st)"
  by (auto simp: resolved_by_def resolve_promise_def nth_list_update)

lemma push_task_resolved_by:
  "resolved_by v st \<Longrightarrow> push_task n st = Some st' \<Longrightarrow> resolved_by v st'"
  by (auto simp: push_task_def Let_def take_def sem_take_def resolved_by_def nth_append
      split: if_splits)

lemma tick_task_resolved_by:
  "resolved_by v st \<Longrightarrow> tick_task st = Some st' \<Longrightarrow> resolved_by v st'"
  by (auto simp: tick_task_def resolved_by_def split: list.splits)

lemma fetchFiles_catch_promises:
  "promises (fetchFiles_catch f reason i st)
     = promises (resolve_promise i
          (LoadError (if reason = JUndefined then JBool True else reason)) st)
   \<or> promises (fetchFiles_catch f reason i st) = promises st"
  by (auto simp: fetchFiles_catch_def Let_def case_prod_beta resolve_promise_def leave_promises)

lemma fetchFiles_then_promises:
  "promises (fetchFiles_then f d i st) = promises (resolve_promise i (Loaded f d) st)"
proof -
  let ?st1 = "fst (leave (resolve_promise i (Loaded f d) st))"
  have p: "promises ?st1 = promises (resolve_promise i (Loaded f d) st)"
    by (rule leave_promises)
  have q: "promises (fst (leave ?st1)) = promises (resolve_promise i (Loaded f d) st)"
    by (simp add: leave_promises)
  show ?thesis
    using p q resolve_promise_twice [OF q]
    by (simp add: fetchFiles_then_def fetchFiles_catch_def Let_def case_prod_beta)
qed

lemma fetchFiles_fire_resolved_by:
  assumes "resolved_by (load_entry api_client files) st"
    and "fetchFiles_fire api_client files a st = Some st'"
  shows "resolved_by (load_entry api_client files) st'"
proof (cases a)
  case Push
  with assms show ?thesis by (simp add: fetchFiles_fire_def push_task_resolved_by)
next
  case Tick
  with assms show ?thesis by (simp add: fetchFiles_fire_def tick_task_resolved_by)
next
  case (Settle i)
  let ?st1 = "st\<lparr>reading := removeAll i (reading st)\<rparr>"
  have r1: "resolved_by (load_entry api_client files) ?st1"
    using assms(1) by (simp add: resolved_by_def)
  show ?thesis
  proof (cases "readFile api_client i (files ! i)")
    case (Resolved d)
    with Settle assms(2) have st': "st' = fetchFiles_then (files ! i) d i ?st1"
      by (simp add: fetchFiles_fire_def Let_def split: if_splits)
    from Resolved have v: "load_entry api_client files i = Loaded (files ! i) d"
      by (simp add: load_entry_def)
    from resolved_by_resolve [OF r1, of i] v
    have "resolved_by (load_entry api_client files) (resolve_promise i (Loaded (files ! i) d) ?st1)"
      by simp
    with fetchFiles_then_promises [of "files ! i" d i ?st1] st' show ?thesis
      by (simp add: resolved_by_def)
  next
    case (Rejected reason)
    with Settle assms(2) have st': "st' = fetchFiles_catch (files ! i) reason i ?st1"
      by (simp add: fetchFiles_fire_def Let_def split: if_splits)
    from Rejected have v: "load_entry api_client files i
        = LoadError (if reason = JUndefined then JBool True else reason)"
      by (simp add: load_entry_def)
    from resolved_by_resolve [OF r1, of i] v
    have "resolved_by (load_entry api_client files)
        (resolve_promise i (LoadError (if reason = JUndefined then JBool True else reason)) ?st1)"
      by simp
    with fetchFiles_catch_promises [of "files ! i" reason i ?st1] st' r1 show ?thesis
      by (auto simp: resolved_by_def)
  qed
qed

lemma those_Some:
  "those xs = Some ys \<Longrightarrow> length ys = length xs \<and> (\<forall>i<length xs. xs ! i = Some (ys ! i))"
proof (induction xs arbitrary: ys)
  case Nil
  then show ?case by simp
next
  case (Cons x xs)
  then show ?case
    by (auto split: option.splits simp: nth_Cons split: nat.splits)
qed

lemma fetchFiles_resolves_with:
  assumes "fetchFiles api_client files schedule = Some r"
  shows "r = Resolved (filter (\<lambda>loadedEntry. \<not> truthy (error_of loadedEntry))
                 (map (load_entry api_client files) [0..<length files]))"
proof -
  from assms obtain st where st: "run (fetchFiles_fire api_client files) schedule pool_init = Some st"
    and s: "fetchFiles_settled files st = Some r"
    by (auto simp: fetchFiles_def split: option.splits)
  have "resolved_by (load_entry api_client files) (pool_init :: loaded pool)"
    by (simp add: resolved_by_def pool_init_def)
  with fetchFiles_fire_resolved_by have rb: "resolved_by (load_entry api_client files) st"
    using st by (rule run_invariant [where P = "resolved_by (load_entry api_client files)"])
  from s obtain es where n: "length (promises st) = length files"
    and t: "those (promises st) = Some es"
    and r: "r = Resolved (filter (\<lambda>loadedEntry. \<not> truthy (error_of loadedEntry)) es)"
    by (auto simp: fetchFiles_settled_def split: if_splits option.splits)
  from those_Some [OF t] have l: "length es = length (promises st)"
    and e: "\<forall>i<length (promises st). promises st ! i = Some (es ! i)"
    by simp_all
  have "es = map (load_entry api_client files) [0..<length files]"
  proof (rule nth_equalityI)
    show "length es = length (map (load_entry api_client files) [0..<length files])"
      using l n by simp
  next
    fix i assume "i < length es"
    with l have i: "i < length (promises st)" by simp
    with e have "promises st ! i = Some (es ! i)" by blast
    moreover from rb i have "promises st ! i = None \<or> promises st ! i = Some (load_entry api_client files i)"
      by (simp add: resolved_by_def)
    ultimately have "es ! i = load_entry api_client files i" by auto
    with i n show "es ! i = map (load_entry api_client files) [0..<length files] ! i"
      by simp
  qed
  with r show ?thesis by simp
qed

lemma successful_entries_filter:
  "successful_entries api_client files
     = map (load_entry api_client files)
         (filter (\<lambda>i. resolved (readFile api_client i (files ! i))) [0..<length files])"
proof -
  have "concat (map (\<lambda>i. case readFile api_client i (files ! i) of
                          Resolved d \<Rightarrow> [Loaded (files ! i) d]
                        | Rejected reason \<Rightarrow> []) xs)
      = map (load_entry api_client files)
          (filter (\<lambda>i. resolved (readFile api_client i (files ! i))) xs)" for xs
    by (induction xs) (auto simp: load_entry_def resolved_def split: outcome.splits)
  then show ?thesis
    by (simp add: successful_entries_def)
qed

text \<open>
  When every read that fails is rejected without a reason or with a truthy one, the
  entries \<^verbatim>\<open>fetchFiles\<close> resolves with are the entries of the work items whose read
  succeeded, in the order of the work items, and nothing else.
\<close>

lemma fetchFiles_only_successes:
  assumes "fetchFiles api_client files schedule = Some r"
    and "\<And>i reason. i < length files \<Longrightarrow> readFile api_client i (files ! i) = Rejected reason
           \<Longrightarrow> reason = JUndefined \<or> truthy reason"
  shows "r = Resolved (map (load_entry api_client files)
                 (filter (\<lambda>i. resolved (readFile api_client i (files ! i))) [0..<length files]))"
proof -
  have k: "(\<not> truthy (error_of (load_entry api_client files i)))
      = resolved (readFile api_client i (files ! i))" if "i < length files" for i
  proof (cases "readFile api_client i (files ! i)")
    case (Resolved d)
    then show ?thesis by (simp add: load_entry_def resolved_def)
  next
    case (Rejected reason)
    with assms(2) [OF that] show ?thesis
      by (auto simp: load_entry_def resolved_def)
  qed
  have "filter (\<lambda>loadedEntry. \<not> truthy (error_of loadedEntry))
          (map (load_entry api_client files) [0..<length files])
      = map (load_entry api_client files)
          (filter (\<lambda>i. \<not> truthy (error_of (load_entry api_client files i))) [0..<length files])"
    by (simp add: filter_map comp_def)
  also have "\<dots> = map (load_entry api_client files)
          (filter (\<lambda>i. resolved (readFile api_client i (files ! i))) [0..<length files])"
    using k by (intro arg_cong [where f = "map (load_entry api_client files)"] filter_cong) auto
  finally show ?thesis
    using fetchFiles_resolves_with [OF assms(1)] by simp
qed

section \<open>Every run of fetchFiles can be completed\<close>

lemma pool_init_sound: "sound n pool_init"
  by (simp add: sound_def pool_init_def tracked_def pending_promises_def)

lemma pending_promises_append_None:
  "pending_promises (st\<lparr>promises := promises st @ [None]\<rparr>)
     = insert (length (promises st)) (pending_promises st)"
  by (auto simp: pending_promises_def nth_append less_Suc_eq)

lemma push_task_sound:
  assumes "sound n st" and "push_task n st = Some st'"
  shows "sound n st' \<and> work_left n st' < work_left n st"
proof -
  let ?i = "length (promises st)"
  from assms(2) have i: "?i < n" and st': "st' = take ?i (st\<lparr>promises := promises st @ [None]\<rparr>)"
    by (auto simp: push_task_def Let_def split: if_splits)
  from assms(1) have fresh: "?i \<notin> set (tracked st)"
    by (simp add: sound_def pending_promises_def)
  have p: "pending_promises st' = insert ?i (pending_promises st)"
    using pending_promises_append_None [of st]
    by (simp add: st' take_def sem_take_def pending_promises_def)
  show ?thesis
  proof (cases "current (sem st) + 1 > int (capacity (sem st))")
    case True
    then have f: "st' = st\<lparr>promises := promises st @ [None],
        sem := (sem st)\<lparr>waiting := waiting (sem st) @ [?i]\<rparr>\<rparr>"
      by (simp add: st' take_def sem_take_def)
    from assms(1) True fresh i p show ?thesis
      by (auto simp: f sound_def tracked_def work_left_def pending_promises_def)
  next
    case False
    then have f: "st' = st\<lparr>promises := promises st @ [None],
        sem := (sem st)\<lparr>current := current (sem st) + 1\<rparr>, reading := reading st @ [?i]\<rparr>"
      by (simp add: st' take_def sem_take_def)
    from assms(1) False fresh i p show ?thesis
      by (auto simp: f sound_def tracked_def work_left_def pending_promises_def)
  qed
qed

lemma tick_task_sound:
  assumes "sound n st" and "tick_task st = Some st'"
  shows "sound n st' \<and> work_left n st' < work_left n st"
proof -
  from assms(2) obtain j rest where t: "ticks st = j # rest"
    and st': "st' = st\<lparr>ticks := rest, reading := reading st @ [j]\<rparr>"
    by (auto simp: tick_task_def split: list.splits)
  from assms(1) t show ?thesis
    by (auto simp: st' sound_def tracked_def work_left_def pending_promises_def)
qed

lemma leave_promises_update:
  "leave (st\<lparr>promises := ps\<rparr>) = ((fst (leave st))\<lparr>promises := ps\<rparr>, snd (leave st))"
  by (cases "waiting (sem st)") (simp_all add: leave_def sem_leave_def Let_def)

lemma leave_resolve_promise:
  "leave (resolve_promise i v st) = (resolve_promise i v (fst (leave st)), snd (leave st))"
  by (simp add: resolve_promise_def leave_promises_update leave_promises)

lemma sound_console: "sound n (st\<lparr>console := c\<rparr>) = sound n st"
  by (simp add: sound_def tracked_def pending_promises_def)

lemma work_left_console: "work_left n (st\<lparr>console := c\<rparr>) = work_left n st"
  by (simp add: work_left_def)

lemma resolve_promise_console:
  "resolve_promise i v (st\<lparr>console := c\<rparr>) = (resolve_promise i v st)\<lparr>console := c\<rparr>"
  by (simp add: resolve_promise_def)

lemma length_removeAll_distinct:
  "distinct xs \<Longrightarrow> x \<in> set xs \<Longrightarrow> Suc (length (removeAll x xs)) = length xs"
  by (induction xs) auto

lemma settle_sound:
  assumes s: "sound n st" and i: "i \<in> set (reading st)"
  shows "\<not> snd (leave (resolve_promise i v (st\<lparr>reading := removeAll i (reading st)\<rparr>)))
       \<and> sound n (fst (leave (resolve_promise i v (st\<lparr>reading := removeAll i (reading st)\<rparr>))))
       \<and> work_left n (fst (leave (resolve_promise i v (st\<lparr>reading := removeAll i (reading st)\<rparr>))))
           < work_left n st"
proof -
  let ?rd = "removeAll i (reading st)"
  let ?ps = "(promises st)[i := Some v]"
  let ?st2 = "st\<lparr>reading := ?rd, promises := ?ps\<rparr>"
  from s have d: "distinct (reading st)" and dt: "distinct (tracked st)"
    by (simp_all add: sound_def tracked_def)
  from d i have len: "Suc (length ?rd) = length (reading st)"
    by (rule length_removeAll_distinct)
  from s i have pend: "i < length (promises st)" "promises st ! i = None"
    by (auto simp: sound_def tracked_def pending_promises_def)
  from dt i have out: "i \<notin> set (ticks st)" "i \<notin> set (waiting (sem st))"
    by (auto simp: tracked_def)
  from pend have r: "resolve_promise i v (st\<lparr>reading := ?rd\<rparr>) = ?st2"
    by (simp add: resolve_promise_def)
  from s have tr: "set (reading st) \<union> set (ticks st) \<union> set (waiting (sem st)) = pending_promises st"
    by (simp add: sound_def tracked_def Un_assoc)
  have pp: "{k. k < length (promises st) \<and> ?ps ! k = None} = pending_promises st - {i}"
    using pend by (auto simp: pending_promises_def nth_list_update)
  from out tr have st: "set ?rd \<union> set (ticks st) \<union> set (waiting (sem st)) = pending_promises st - {i}"
    by auto
  from s have c: "current (sem st) = int (length (reading st) + length (ticks st))"
    and cap: "current (sem st) \<le> int (capacity (sem st))"
    and k: "capacity (sem st) = MAX_CONCURRENT_DOWNLOADS"
    and u: "unhandled st = 0" and ln: "length (promises st) \<le> n"
    and w: "waiting (sem st) = [] \<or> current (sem st) = int (capacity (sem st))"
    unfolding sound_def by blast+
  from dt have dd: "distinct (?rd @ ticks st @ waiting (sem st))"
    by (auto simp: tracked_def distinct_removeAll)
  show ?thesis
  proof (cases "waiting (sem st)")
    case Nil
    let ?st3 = "?st2\<lparr>sem := (sem st)\<lparr>current := current (sem st) - 1\<rparr>\<rparr>"
    from c len Nil have l: "leave ?st2 = (?st3, False)"
      by (simp add: leave_def sem_leave_def Let_def)
    have a: "sound n ?st3"
      unfolding sound_def tracked_def pending_promises_def
      using c cap k u ln len Nil dd st pp by (simp add: Un_assoc)
    have b: "work_left n ?st3 < work_left n st"
      using len by (simp add: work_left_def)
    from a b show ?thesis
      by (simp add: r l)
  next
    case (Cons j rest)
    with w have full: "current (sem st) = int (capacity (sem st))"
      by simp
    let ?st3 = "?st2\<lparr>sem := (sem st)\<lparr>current := current (sem st), waiting := rest\<rparr>,
                     ticks := ticks st @ [j]\<rparr>"
    from Cons full have l: "leave ?st2 = (?st3, False)"
      by (simp add: leave_def sem_leave_def Let_def)
    from dd Cons have dd': "distinct (?rd @ (ticks st @ [j]) @ rest)"
      by auto
    from st Cons have st': "set ?rd \<union> set (ticks st @ [j]) \<union> set rest = pending_promises st - {i}"
      by auto
    have a: "sound n ?st3"
      unfolding sound_def tracked_def pending_promises_def
      using c cap k u ln len full dd' st' pp by (simp add: Un_assoc)
    have b: "work_left n ?st3 < work_left n st"
      using len Cons by (simp add: work_left_def)
    from a b show ?thesis
      by (simp add: r l)
  qed
qed

lemma fetchFiles_fire_sound:
  assumes s: "sound n st" and f: "fetchFiles_fire api_client files a st = Some st'"
    and n: "n = length files"
  shows "sound n st' \<and> work_left n st' < work_left n st"
proof (cases a)
  case Push
  with f n have "push_task n st = Some st'" by (simp add: fetchFiles_fire_def)
  with s show ?thesis by (rule push_task_sound)
next
  case Tick
  with f have "tick_task st = Some st'" by (simp add: fetchFiles_fire_def)
  with s show ?thesis by (rule tick_task_sound)
next
  case (Settle i)
  let ?st1 = "st\<lparr>reading := removeAll i (reading st)\<rparr>"
  from Settle f have i: "i \<in> set (reading st)"
    by (simp add: fetchFiles_fire_def split: if_splits)
  show ?thesis
  proof (cases "readFile api_client i (files ! i)")
    case (Resolved d)
    with Settle f i have st': "st' = fetchFiles_then (files ! i) d i ?st1"
      by (simp add: fetchFiles_fire_def Let_def split: if_splits)
    from settle_sound [OF s i, of "Loaded (files ! i) d"] show ?thesis
      by (simp add: st' fetchFiles_then_def Let_def case_prod_beta)
  next
    case (Rejected reason)
    let ?v = "LoadError (if reason = JUndefined then JBool True else reason)"
    from Rejected Settle f i have st': "st' = fetchFiles_catch (files ! i) reason i ?st1"
      by (simp add: fetchFiles_fire_def Let_def split: if_splits)
    note x = settle_sound [OF s i, of ?v]
    have t: "snd (leave ?st1) = snd (leave (resolve_promise i ?v ?st1))"
      by (simp add: leave_resolve_promise)
    have e: "fst (leave (resolve_promise i ?v ?st1)) = resolve_promise i ?v (fst (leave ?st1))"
      by (simp add: leave_resolve_promise)
    from x t have nt: "\<not> snd (leave ?st1)" by simp
    from nt have "st' = (resolve_promise i ?v (fst (leave ?st1)))
        \<lparr>console := console (fst (leave ?st1)) @
              [EvError (''failed to load file from GitHub: '' @ path (files ! i))]\<rparr>"
      by (simp add: st' fetchFiles_catch_def Let_def case_prod_beta resolve_promise_console)
    with x e show ?thesis
      by (simp add: sound_console work_left_console)
  qed
qed

lemma those_None: "those xs = None \<Longrightarrow> \<exists>i<length xs. xs ! i = None"
proof (induction xs)
  case Nil
  then show ?case by simp
next
  case (Cons x xs)
  show ?case
  proof (cases x)
    case None
    then show ?thesis by auto
  next
    case (Some y)
    with Cons.prems have "those xs = None"
      by (simp split: option.splits)
    with Cons.IH obtain i where "i < length xs" "xs ! i = None" by blast
    then have "Suc i < length (x # xs) \<and> (x # xs) ! Suc i = None" by simp
    then show ?thesis by blast
  qed
qed

lemma fetchFiles_progress:
  assumes s: "sound (length files) st" and p: "fetchFiles_settled files st = None"
  shows "\<exists>a st'. fetchFiles_fire api_client files a st = Some st'"
proof (cases "length (promises st) < length files")
  case True
  then have "fetchFiles_fire api_client files Push st \<noteq> None"
    by (simp add: fetchFiles_fire_def push_task_def Let_def)
  then show ?thesis by blast
next
  case False
  with s have full: "length (promises st) = length files"
    by (simp add: sound_def)
  with p have "those (promises st) = None"
    by (simp add: fetchFiles_settled_def split: option.splits)
  from those_None [OF this] obtain i where "i \<in> pending_promises st"
    by (auto simp: pending_promises_def)
  with s have i: "i \<in> set (tracked st)"
    by (simp add: sound_def)
  show ?thesis
  proof (cases "reading st")
    case (Cons j rest)
    with s have "j \<in> pending_promises st"
      by (auto simp: sound_def tracked_def)
    with full have "j < length files"
      by (simp add: pending_promises_def)
    with Cons have "fetchFiles_fire api_client files (Settle j) st \<noteq> None"
      by (simp add: fetchFiles_fire_def Let_def split: outcome.splits)
    then show ?thesis by blast
  next
    case Nil
    note rd = Nil
    show ?thesis
    proof (cases "ticks st")
      case (Cons j rest)
      then have "fetchFiles_fire api_client files Tick st \<noteq> None"
        by (simp add: fetchFiles_fire_def tick_task_def)
      then show ?thesis by blast
    next
      case Nil
      with rd i have "waiting (sem st) \<noteq> []"
        by (auto simp: tracked_def)
      with s rd Nil have False
        by (auto simp: sound_def MAX_CONCURRENT_DOWNLOADS_def)
      then show ?thesis ..
    qed
  qed
qed

lemma run_append:
  "run fire (xs @ ys) st = (case run fire xs st of None \<Rightarrow> None | Some st' \<Rightarrow> run fire ys st')"
  by (induction xs arbitrary: st) (auto split: option.splits)

lemma fetchFiles_completes:
  assumes "sound (length files) st"
  shows "\<exists>more st'. run (fetchFiles_fire api_client files) more st = Some st'
           \<and> fetchFiles_settled files st' \<noteq> None"
  using assms
proof (induction "work_left (length files) st" arbitrary: st rule: less_induct)
  case less
  show ?case
  proof (cases "fetchFiles_settled files st")
    case (Some r)
    then have "run (fetchFiles_fire api_client files) [] st = Some st
        \<and> fetchFiles_settled files st \<noteq> None"
      by simp
    then show ?thesis by blast
  next
    case None
    from fetchFiles_progress [OF less.prems None]
    obtain a st1 where a: "fetchFiles_fire api_client files a st = Some st1" by blast
    from fetchFiles_fire_sound [OF less.prems a refl]
    have s1: "sound (length files) st1"
      and w: "work_left (length files) st1 < work_left (length files) st"
      by simp_all
    from less.hyps [OF w s1] obtain more st'
      where "run (fetchFiles_fire api_client files) more st1 = Some st'"
        and "fetchFiles_settled files st' \<noteq> None"
      by blast
    with a have "run (fetchFiles_fire api_client files) (a # more) st = Some st'
        \<and> fetchFiles_settled files st' \<noteq> None"
      by simp
    then show ?thesis by blast
  qed
qed

lemma fetchFiles_run_sound:
  assumes "run (fetchFiles_fire api_client files) schedule pool_init = Some st"
  shows "sound (length files) st"
proof -
  have step: "\<And>a st st'. sound (length files) st
      \<Longrightarrow> fetchFiles_fire api_client files a st = Some st' \<Longrightarrow> sound (length files) st'"
    using fetchFiles_fire_sound by blast
  from step pool_init_sound assms show ?thesis
    by (rule run_invariant [where P = "sound (length files)"])
qed

lemma fetchFiles_can_settle:
  assumes "run (fetchFiles_fire api_client files) schedule pool_init = Some st"
  shows "\<exists>more. fetchFiles api_client files (schedule @ more) \<noteq> None"
proof -
  from fetchFiles_completes [OF fetchFiles_run_sound [OF assms], of api_client]
  obtain more st' where "run (fetchFiles_fire api_client files) more st = Some st'"
    and "fetchFiles_settled files st' \<noteq> None"
    by blast
  with assms have "fetchFiles api_client files (schedule @ more) \<noteq> None"
    by (simp add: fetchFiles_def run_append)
  then show ?thesis by blast
qed

section \<open>fetchFiles: the claim\<close>

text \<open>
  Let every read that fails be rejected without a reason or with a truthy one (an Error
  object is). Then, whatever the mix of successes and failures and whatever the schedule:
  when the promise \<^verbatim>\<open>fetchFiles\<close> returns has settled, it has resolved, never rejected, with
  the entries of exactly the work items whose read succeeded, as many as there are such
  items; and every schedule that can run can be continued until the promise has so
  resolved.
\<close>

lemma fetchFiles_exactly_the_successes:
  assumes "\<forall>i<length files. \<forall>reason. readFile api_client i (files ! i) = Rejected reason
             \<longrightarrow> reason = JUndefined \<or> truthy reason"
  shows "(\<forall>r. fetchFiles api_client files schedule = Some r
             \<longrightarrow> r = Resolved (successful_entries api_client files))
       \<and> length (successful_entries api_client files)
           = length (filter (\<lambda>i. resolved (readFile api_client i (files ! i))) [0..<length files])
       \<and> (run (fetchFiles_fire api_client files) schedule pool_init \<noteq> None
             \<longrightarrow> (\<exists>more. fetchFiles api_client files (schedule @ more)
                           = Some (Resolved (successful_entries api_client files))))"
proof -
  have ok: "r = Resolved (successful_entries api_client files)"
    if "fetchFiles api_client files sch = Some r" for r sch
    using fetchFiles_only_successes [OF that] assms
    by (simp add: successful_entries_filter)
  have len: "length (successful_entries api_client files)
           = length (filter (\<lambda>i. resolved (readFile api_client i (files ! i))) [0..<length files])"
    by (simp add: successful_entries_filter)
  have live: "\<exists>more. fetchFiles api_client files (schedule @ more)
                           = Some (Resolved (successful_entries api_client files))"
    if "run (fetchFiles_fire api_client files) schedule pool_init \<noteq> None"
  proof -
    from that obtain st where "run (fetchFiles_fire api_client files) schedule pool_init = Some st"
      by blast
    from fetchFiles_can_settle [OF this] obtain more r
      where "fetchFiles api_client files (schedule @ more) = Some r"
      by blast
    with ok [OF this] show ?thesis by blast
  qed
  from ok len live show ?thesis by blast
qed

lemma fetchFiles_exactly_the_successes_example:
  "fetchFiles flaky_api [demo_file ''a.md'', demo_file ''b.md'', demo_file ''c.md'', demo_file ''d.md'']
       [Push, Push, Push, Push, Settle 2, Settle 0, Settle 3, Settle 1]
     = Some (Resolved [Loaded (demo_file ''a.md'') ''content of a.md'',
                       Loaded (demo_file ''d.md'') ''content of d.md''])"
proof -
  let ?files = "[demo_file ''a.md'', demo_file ''b.md'', demo_file ''c.md'', demo_file ''d.md'']"
  let ?sch = "[Push, Push, Push, Push, Settle 2, Settle 0, Settle 3, Settle 1]"
  have h: "\<forall>i<length ?files. \<forall>reason. readFile flaky_api i (?files ! i) = Rejected reason
             \<longrightarrow> reason = JUndefined \<or> truthy reason"
    by (auto simp: flaky_api_def js_Error_def)
  have s: "fetchFiles flaky_api ?files ?sch \<noteq> None"
    by code_simp
  then obtain r where r: "fetchFiles flaky_api ?files ?sch = Some r"
    by blast
  have e: "successful_entries flaky_api ?files
      = [Loaded (demo_file ''a.md'') ''content of a.md'',
         Loaded (demo_file ''d.md'') ''content of d.md'']"
    by code_simp
  from fetchFiles_exactly_the_successes [OF h, of ?sch, THEN conjunct1] r
  have "r = Resolved (successful_entries flaky_api ?files)"
    by blast
  with r e show ?thesis by simp
qed

text \<open>
  C3. The claim fails where a read is rejected with a falsy reason other than
  \<^verbatim>\<open>undefined\<close>. Two work items; the read of the first succeeds, the read of the second
  is rejected with \<^verbatim>\<open>null\<close>. The handler is there to flag the failed item, and its default
  \<^verbatim>\<open>err = true\<close> makes the flag truthy when the reason is missing; but a default applies
  to \<^verbatim>\<open>undefined\<close> only, so the entry of the failed item is \<^verbatim>\<open>{ error: null }\<close>, and
  \<^verbatim>\<open>!loadedEntry.error\<close> keeps it. One read succeeded, and the aggregate has two entries,
  the second of them the failed item.
\<close>

theorem fetchFiles_keeps_failure_with_null_reason:
  "readFile demo_api 0 (demo_file ''a.md'') = Resolved ''content of a.md''
   \<and> readFile demo_api 1 (demo_file ''b.md'') = Rejected JNull
   \<and> fetchFiles demo_api [demo_file ''a.md'', demo_file ''b.md''] [Push, Push, Settle 0, Settle 1]
       = Some (Resolved [Loaded (demo_file ''a.md'') ''content of a.md'', LoadError JNull])
   \<and> successful_entries demo_api [demo_file ''a.md'', demo_file ''b.md'']
       = [Loaded (demo_file ''a.md'') ''content of a.md'']"
  by code_simp

section \<open>unpublishedEntries: the claim\<close>

lemma unpublishedEntries_list_failure:
  assumes "listUnpublishedBranches api_client = Rejected error"
  shows "unpublishedEntries api_client schedule
           = Some (case get_prop error ''message'' of
                     Rejected thrown \<Rightarrow> Rejected thrown
                   | Resolved message \<Rightarrow>
                       if message = JStr ''Not Found'' then Resolved [] else Rejected error)"
  using assms by (simp add: unpublishedEntries_def catch_not_found_def)

text \<open>
  When \<^verbatim>\<open>listUnpublishedBranches\<close> fails with a reason that is neither
  \<^verbatim>\<open>undefined\<close> nor \<^verbatim>\<open>null\<close>, \<^verbatim>\<open>unpublishedEntries\<close> resolves with the empty list if the
  reason's message is \<^verbatim>\<open>Not Found\<close>, and rejects with the very same reason otherwise.
\<close>

lemma unpublishedEntries_not_found_or_same_failure:
  assumes "listUnpublishedBranches api_client = Rejected error"
    and "error \<noteq> JUndefined" and "error \<noteq> JNull"
  shows "unpublishedEntries api_client schedule
           = Some (if get_prop error ''message'' = Resolved (JStr ''Not Found'')
                   then Resolved [] else Rejected error)"
proof -
  from assms(2,3) obtain m where "get_prop error ''message'' = Resolved m"
    by (cases error) auto
  with assms(1) show ?thesis
    by (simp add: unpublishedEntries_list_failure)
qed

lemma unpublishedEntries_not_found_or_same_failure_example:
  "unpublishedEntries (demo_api\<lparr>listUnpublishedBranches := Rejected (js_Error ''Not Found'')\<rparr>) []
     = Some (Resolved [])
   \<and> unpublishedEntries
       (demo_api\<lparr>listUnpublishedBranches := Rejected (js_Error ''Bad credentials'')\<rparr>) []
     = Some (Rejected (js_Error ''Bad credentials''))"
proof -
  have a: "listUnpublishedBranches (demo_api\<lparr>listUnpublishedBranches := Rejected (js_Error ''Not Found'')\<rparr>)
      = Rejected (js_Error ''Not Found'')"
    by simp
  have b: "listUnpublishedBranches
      (demo_api\<lparr>listUnpublishedBranches := Rejected (js_Error ''Bad credentials'')\<rparr>)
      = Rejected (js_Error ''Bad credentials'')"
    by simp
  have u: "js_Error m \<noteq> JUndefined" and n: "js_Error m \<noteq> JNull" for m
    by (simp_all add: js_Error_def)
  from unpublishedEntries_not_found_or_same_failure [OF a u n, of "[]"]
  have x: "unpublishedEntries (demo_api\<lparr>listUnpublishedBranches := Rejected (js_Error ''Not Found'')\<rparr>) []
     = Some (Resolved [])"
    by (simp add: js_Error_def)
  from unpublishedEntries_not_found_or_same_failure [OF b u n, of "[]"]
  have y: "unpublishedEntries
       (demo_api\<lparr>listUnpublishedBranches := Rejected (js_Error ''Bad credentials'')\<rparr>) []
     = Some (Rejected (js_Error ''Bad credentials''))"
    by (simp add: js_Error_def)
  from x y show ?thesis by (rule conjI)
qed

text \<open>
  C8. The claim fails where \<^verbatim>\<open>listUnpublishedBranches\<close> is rejected without a reason
  (\<^verbatim>\<open>undefined\<close>), or with \<^verbatim>\<open>null\<close>. The handler is there to pass on every failure that is
  not a \<^verbatim>\<open>Not Found\<close>, but it reads \<^verbatim>\<open>error.message\<close> without a guard: the access throws
  before \<^verbatim>\<open>Promise.reject(error)\<close> is reached, and the caller gets that TypeError in place
  of the failure.
\<close>

theorem unpublishedEntries_failure_without_reason:
  "unpublishedEntries (demo_api\<lparr>listUnpublishedBranches := Rejected JUndefined\<rparr>) []
     = Some (Rejected js_TypeError)
   \<and> unpublishedEntries (demo_api\<lparr>listUnpublishedBranches := Rejected JNull\<rparr>) []
     = Some (Rejected js_TypeError)
   \<and> js_TypeError \<noteq> JUndefined \<and> js_TypeError \<noteq> JNull"
  by (simp add: unpublishedEntries_def catch_not_found_def demo_api_def js_TypeError_def)

end
